theory Spec2Isabelle
  imports Complex_Main
begin

section \<open>Text\<close>

text \<open>
  A Python \<open>str\<close> is a sequence of Unicode code points. A code point is modelled as an
  integer and a \<open>str\<close> as a list of them; \<open>u ''abc''\<close> is the text of an ASCII literal of
  the program.
\<close>

type_synonym cp = int

type_synonym ustring = "cp list"

definition u :: "string \<Rightarrow> ustring" where
  "u s = map of_char s"

text \<open>
  The character tables of Python on ASCII characters: the whitespace of \<open>str.strip\<close>,
  \<open>str.split\<close> and \<open>\s\<close>, the digits of \<open>\d\<close>, the word characters of \<open>\w\<close>, and the
  case mappings.
\<close>

definition ascii :: "cp \<Rightarrow> bool" where
  "ascii c = (0 \<le> c \<and> c < 128)"

definition ascii_space :: "cp \<Rightarrow> bool" where
  "ascii_space c = (9 \<le> c \<and> c \<le> 13 \<or> 28 \<le> c \<and> c \<le> 32)"

definition ascii_digit :: "cp \<Rightarrow> bool" where
  "ascii_digit c = (48 \<le> c \<and> c \<le> 57)"

definition ascii_word :: "cp \<Rightarrow> bool" where
  "ascii_word c = (65 \<le> c \<and> c \<le> 90 \<or> 97 \<le> c \<and> c \<le> 122 \<or> ascii_digit c \<or> c = 95)"

definition ascii_lower :: "cp \<Rightarrow> cp" where
  "ascii_lower c = (if 65 \<le> c \<and> c \<le> 90 then c + 32 else c)"

definition ascii_title :: "cp \<Rightarrow> cp" where
  "ascii_title c = (if 97 \<le> c \<and> c \<le> 122 then c - 32 else c)"

text \<open>
  Beyond ASCII the tables are those of the Unicode database of the interpreter, which is
  not part of the program. They are a parameter \<open>U\<close> of the functions that read them:
  whitespace, word characters and decimal digits, the full lower-case and title-case
  mapping of a character, the condition under which a capital sigma (U+03A3) at a
  position of a text is lower-cased to the final sigma, and the characters beyond ASCII
  that a literal character of a pattern matches under \<open>re.IGNORECASE\<close>.
\<close>

record unicode =
  space_ext :: "cp \<Rightarrow> bool"
  word_ext :: "cp \<Rightarrow> bool"
  digit_ext :: "cp \<Rightarrow> bool"
  lower_ext :: "cp \<Rightarrow> ustring"
  title_ext :: "cp \<Rightarrow> ustring"
  final_sigma :: "ustring \<Rightarrow> nat \<Rightarrow> bool"
  ci_ext :: "cp \<Rightarrow> cp \<Rightarrow> bool"

definition is_space :: "unicode \<Rightarrow> cp \<Rightarrow> bool" where
  "is_space U c = (if ascii c then ascii_space c else space_ext U c)"

definition is_digit :: "unicode \<Rightarrow> cp \<Rightarrow> bool" where
  "is_digit U c = (if ascii c then ascii_digit c else digit_ext U c)"

definition is_word :: "unicode \<Rightarrow> cp \<Rightarrow> bool" where
  "is_word U c = (if ascii c then ascii_word c else word_ext U c)"

definition lower_cp :: "unicode \<Rightarrow> cp \<Rightarrow> ustring" where
  "lower_cp U c = (if ascii c then [ascii_lower c] else lower_ext U c)"

definition title_cp :: "unicode \<Rightarrow> cp \<Rightarrow> ustring" where
  "title_cp U c = (if ascii c then [ascii_title c] else title_ext U c)"

text \<open>
  The lower case of the character at position \<open>i\<close> of \<open>s\<close>: a capital sigma becomes the
  final sigma (U+03C2) or the small sigma (U+03C3), every other character has its own
  mapping.
\<close>

definition lower_at :: "unicode \<Rightarrow> ustring \<Rightarrow> nat \<Rightarrow> ustring" where
  "lower_at U s i =
     (if s ! i = 0x3A3 then [if final_sigma U s i then 0x3C2 else 0x3C3]
      else lower_cp U (s ! i))"

text \<open>\<open>str.lower()\<close>.\<close>

definition lower :: "unicode \<Rightarrow> ustring \<Rightarrow> ustring" where
  "lower U s = concat (map (lower_at U s) [0 ..< length s])"

text \<open>
  \<open>str.capitalize()\<close>: the first character in title case, the others in lower case.
\<close>

definition capitalize :: "unicode \<Rightarrow> ustring \<Rightarrow> ustring" where
  "capitalize U s =
     (case s of
        [] \<Rightarrow> []
      | c # t \<Rightarrow> title_cp U c @ concat (map (lower_at U s) [1 ..< length s]))"

text \<open>\<open>str.strip()\<close>: whitespace removed at both ends.\<close>

definition strip :: "unicode \<Rightarrow> ustring \<Rightarrow> ustring" where
  "strip U s = rev (dropWhile (is_space U) (rev (dropWhile (is_space U) s)))"

text \<open>
  \<open>str.split()\<close> without argument: the maximal runs of characters that are not
  whitespace. The second argument is the word being read, in order.
\<close>

fun split_acc :: "unicode \<Rightarrow> ustring \<Rightarrow> ustring \<Rightarrow> ustring list" where
  "split_acc U w [] = (if w = [] then [] else [w])"
| "split_acc U w (c # s) =
     (if is_space U c then (if w = [] then split_acc U [] s else w # split_acc U [] s)
      else split_acc U (w @ [c]) s)"

definition split :: "unicode \<Rightarrow> ustring \<Rightarrow> ustring list" where
  "split U s = split_acc U [] s"

text \<open>\<open>str.startswith\<close>, and the substring test \<open>p in s\<close>.\<close>

fun startswith :: "ustring \<Rightarrow> ustring \<Rightarrow> bool" where
  "startswith s [] = True"
| "startswith [] (p # ps) = False"
| "startswith (c # s) (p # ps) = (c = p \<and> startswith s ps)"

fun contains :: "ustring \<Rightarrow> ustring \<Rightarrow> bool" where
  "contains [] p = (p = [])"
| "contains (c # s) p = (startswith (c # s) p \<or> contains s p)"

section \<open>Regular expressions\<close>

text \<open>
  The patterns of the two extractors are sequences of four kinds of items: a literal
  character, a greedy repetition \<open>c*\<close> of a character class, an optional character
  \<open>c?\<close>, and a capture group \<open>(c{n,})\<close>, a greedy repetition of a class, \<open>n\<close> times at
  least (\<open>(\w+)\<close> is \<open>(\w{1,})\<close>). Every pattern has one group.
\<close>

datatype rx_item = Ch cp | Star "cp \<Rightarrow> bool" | Opt cp | Group "cp \<Rightarrow> bool" nat

type_synonym regex = "rx_item list"

text \<open>
  A character \<open>c\<close> of the text against a literal character \<open>p\<close> of a pattern. Under
  \<open>re.IGNORECASE\<close> (\<open>ci\<close>) two ASCII characters match when they have the same lower
  case; what else matches is in the table.
\<close>

definition ci_eq :: "unicode \<Rightarrow> cp \<Rightarrow> cp \<Rightarrow> bool" where
  "ci_eq U c p = (if ascii c \<and> ascii p then ascii_lower c = ascii_lower p else ci_ext U c p)"

definition ch_eq :: "unicode \<Rightarrow> bool \<Rightarrow> cp \<Rightarrow> cp \<Rightarrow> bool" where
  "ch_eq U ci c p = (if ci then ci_eq U c p else c = p)"

text \<open>The first alternative that succeeds, in the order given.\<close>

primrec first_some :: "('a \<Rightarrow> 'b option) \<Rightarrow> 'a list \<Rightarrow> 'b option" where
  "first_some f [] = None"
| "first_some f (x # xs) = (case f x of Some y \<Rightarrow> Some y | None \<Rightarrow> first_some f xs)"

text \<open>
  The lengths that a greedy repetition of the class \<open>P\<close>, \<open>n\<close> times at least, tries at
  the head of \<open>s\<close>: the longest run first, then one character less each time.
\<close>

definition greedy :: "(cp \<Rightarrow> bool) \<Rightarrow> nat \<Rightarrow> ustring \<Rightarrow> nat list" where
  "greedy P n s = rev [n ..< Suc (length (takeWhile P s))]"

text \<open>
  The backtracking matcher of \<open>re\<close>: \<open>rmatch U ci r s cap\<close> matches the items \<open>r\<close> at the
  head of \<open>s\<close> and returns the text of the group, \<open>cap\<close> when no group has been passed
  yet. An optional character is tried present first.
\<close>

primrec rmatch :: "unicode \<Rightarrow> bool \<Rightarrow> regex \<Rightarrow> ustring \<Rightarrow> ustring \<Rightarrow> ustring option" where
  "rmatch U ci [] = (\<lambda>s cap. Some cap)"
| "rmatch U ci (i # r) = (\<lambda>s cap.
     case i of
       Ch p \<Rightarrow>
         (case s of
            [] \<Rightarrow> None
          | c # s' \<Rightarrow> if ch_eq U ci c p then rmatch U ci r s' cap else None)
     | Star P \<Rightarrow> first_some (\<lambda>k. rmatch U ci r (drop k s) cap) (greedy P 0 s)
     | Opt p \<Rightarrow>
         (case s of
            [] \<Rightarrow> rmatch U ci r [] cap
          | c # s' \<Rightarrow>
              if ch_eq U ci c p
              then (case rmatch U ci r s' cap of Some g \<Rightarrow> Some g | None \<Rightarrow> rmatch U ci r s cap)
              else rmatch U ci r s cap)
     | Group P n \<Rightarrow> first_some (\<lambda>k. rmatch U ci r (drop k s) (take k s)) (greedy P n s))"

definition re_match :: "unicode \<Rightarrow> bool \<Rightarrow> regex \<Rightarrow> ustring \<Rightarrow> ustring option" where
  "re_match U ci r s = rmatch U ci r s []"

text \<open>
  \<open>re.search(pattern, s)\<close> tries the pattern at every start position from the left,
  the end of the string included, and returns the group of the first match.
\<close>

fun search :: "(ustring \<Rightarrow> ustring option) \<Rightarrow> ustring \<Rightarrow> ustring option" where
  "search m [] = m []"
| "search m (c # s) = (case m (c # s) of Some g \<Rightarrow> Some g | None \<Rightarrow> search m s)"

definition re_search :: "unicode \<Rightarrow> bool \<Rightarrow> regex \<Rightarrow> ustring \<Rightarrow> ustring option" where
  "re_search U ci r s = search (re_match U ci r) s"

text \<open>A run of literal characters.\<close>

definition lit :: "string \<Rightarrow> regex" where
  "lit s = map Ch (u s)"

section \<open>Entity extractors\<close>

text \<open>A Python value used as a condition: \<open>None\<close> and the empty string are false.\<close>

fun truthy :: "ustring option \<Rightarrow> bool" where
  "truthy None = False"
| "truthy (Some s) = (s \<noteq> [])"

text \<open>
  The patterns of \<open>extract_name\<close>: \<open>my name is (\w+)\<close>, \<open>i am (\w+)\<close>, \<open>i'm (\w+)\<close>,
  \<open>call me (\w+)\<close>, \<open>this is (\w+)\<close>.
\<close>

definition name_regexes :: "unicode \<Rightarrow> regex list" where
  "name_regexes U =
     [lit ''my name is '' @ [Group (is_word U) 1],
      lit ''i am '' @ [Group (is_word U) 1],
      lit (''i'' @ [CHR 0x27] @ ''m '') @ [Group (is_word U) 1],
      lit ''call me '' @ [Group (is_word U) 1],
      lit ''this is '' @ [Group (is_word U) 1]]"

text \<open>
  \<open>extract_name\<close>: the patterns are tried in order on the lower-cased message; the first
  one that matches with a non-empty group returns the group, capitalized.
\<close>

fun first_name :: "unicode \<Rightarrow> regex list \<Rightarrow> ustring \<Rightarrow> ustring option" where
  "first_name U [] s = None"
| "first_name U (r # rs) s =
     (case re_search U False r s of
        Some g \<Rightarrow> if g \<noteq> [] then Some (capitalize U g) else first_name U rs s
      | None \<Rightarrow> first_name U rs s)"

definition extract_name :: "unicode \<Rightarrow> ustring \<Rightarrow> ustring option" where
  "extract_name U msg = first_name U (name_regexes U) (lower U msg)"

text \<open>
  The patterns of \<open>extract_order_number\<close>: \<open>order\s*#?\s*(\d{5,})\<close>, \<open>#(\d{5,})\<close>,
  \<open>ORD[-]?(\d{5,})\<close>, \<open>tracking\s*#?\s*(\d{5,})\<close>.
\<close>

definition order_regexes :: "unicode \<Rightarrow> regex list" where
  "order_regexes U =
     [lit ''order'' @ [Star (is_space U), Opt 0x23, Star (is_space U), Group (is_digit U) 5],
      lit ''#'' @ [Group (is_digit U) 5],
      lit ''ORD'' @ [Opt 0x2D, Group (is_digit U) 5],
      lit ''tracking'' @ [Star (is_space U), Opt 0x23, Star (is_space U), Group (is_digit U) 5]]"

text \<open>
  \<open>extract_order_number\<close>: the four patterns in order, case-insensitively, on the message
  as it is; the first that matches returns its group. \<open>0x23\<close> is the hash sign and
  \<open>0x2D\<close> the hyphen.
\<close>

fun first_match :: "unicode \<Rightarrow> regex list \<Rightarrow> ustring \<Rightarrow> ustring option" where
  "first_match U [] s = None"
| "first_match U (r # rs) s =
     (case re_search U True r s of Some g \<Rightarrow> Some g | None \<Rightarrow> first_match U rs s)"

definition extract_order_number :: "unicode \<Rightarrow> ustring \<Rightarrow> ustring option" where
  "extract_order_number U msg = first_match U (order_regexes U) msg"

section \<open>Intent catalog\<close>

text \<open>
  The global \<open>responses\<close> is the content of \<open>responses.json\<close>, or the built-in catalog
  when that file is missing. It is a parameter \<open>resp\<close> of the functions that read it: an
  ordered dictionary from intent name to an entry whose keys \<open>patterns\<close> and
  \<open>responses\<close> may each be absent.
\<close>

record intent_data =
  patterns :: "ustring list option"
  responses :: "ustring list option"

type_synonym catalog = "(ustring \<times> intent_data) list"

text \<open>
  The catalog built in the \<open>except FileNotFoundError\<close> branch. \<open>0x1F44B\<close> is the waving
  hand of the greeting.
\<close>

definition default_responses :: catalog where
  "default_responses =
     [(u ''greeting'',
        \<lparr>patterns = Some [u ''hello'', u ''hi'', u ''hey'', u ''good morning'',
                           u ''good afternoon'', u ''good evening''],
         responses = Some [u ''Hello! '' @ [0x1F44B] @ u '' How can I help you today?'']\<rparr>),
      (u ''return'',
        \<lparr>patterns = Some [u ''return'', u ''refund'', u ''exchange'', u ''send back''],
         responses = Some [u ''You can return items within 30 days of purchase.'']\<rparr>),
      (u ''default'',
        \<lparr>patterns = None,
         responses = Some [u (''I'' @ [CHR 0x27] @ ''m not sure about that. Can you rephrase?'')]\<rparr>)]"

text \<open>\<open>data.get('patterns', [])\<close>.\<close>

definition get_patterns :: "intent_data \<Rightarrow> ustring list" where
  "get_patterns data = (case patterns data of None \<Rightarrow> [] | Some ps \<Rightarrow> ps)"

section \<open>Intent classifier\<close>

text \<open>
  \<open>\b\<close> holds at a position when exactly one of the characters before and after it is a
  word character; the two ends of the string count as not a word character.
\<close>

definition word_opt :: "unicode \<Rightarrow> cp option \<Rightarrow> bool" where
  "word_opt U c = (case c of None \<Rightarrow> False | Some x \<Rightarrow> is_word U x)"

definition boundary :: "unicode \<Rightarrow> cp option \<Rightarrow> cp option \<Rightarrow> bool" where
  "boundary U a b = (word_opt U a \<noteq> word_opt U b)"

definition head_opt :: "ustring \<Rightarrow> cp option" where
  "head_opt s = (case s of [] \<Rightarrow> None | c # _ \<Rightarrow> Some c)"

text \<open>
  \<open>\b\<close>, the escaped pattern \<open>p\<close> and \<open>\b\<close> at the head of \<open>s\<close>, where \<open>prev\<close> is the
  character before \<open>s\<close> in the whole message.
\<close>

definition boundary_here :: "unicode \<Rightarrow> cp option \<Rightarrow> ustring \<Rightarrow> ustring \<Rightarrow> bool" where
  "boundary_here U prev s p =
     (boundary U prev (head_opt s) \<and> startswith s p \<and>
      boundary U (if p = [] then prev else Some (last p)) (head_opt (drop (length p) s)))"

fun boundary_from :: "unicode \<Rightarrow> cp option \<Rightarrow> ustring \<Rightarrow> ustring \<Rightarrow> bool" where
  "boundary_from U prev [] p = boundary_here U prev [] p"
| "boundary_from U prev (c # s) p =
     (boundary_here U prev (c # s) p \<or> boundary_from U (Some c) s p)"

text \<open>\<open>re.search(r'\b' + re.escape(pattern) + r'\b', message)\<close> as a condition.\<close>

definition boundary_search :: "unicode \<Rightarrow> ustring \<Rightarrow> ustring \<Rightarrow> bool" where
  "boundary_search U p s = boundary_from U None s p"

definition priority_intents :: "ustring list" where
  "priority_intents = [u ''return'', u ''refund'', u ''shipping'', u ''payment'', u ''contact'']"

definition greeting_patterns :: "ustring list" where
  "greeting_patterns = [u ''hello'', u ''hi'', u ''hey'', u ''greetings'']"

text \<open>
  The first loop of \<open>match_intent\<close>: the priority intents in order; one that is in the
  catalog wins when the words of one of its patterns are all words of the message.
\<close>

fun priority_scan :: "unicode \<Rightarrow> catalog \<Rightarrow> ustring set \<Rightarrow> ustring list \<Rightarrow> ustring option" where
  "priority_scan U resp words [] = None"
| "priority_scan U resp words (intent # rest) =
     (case map_of resp intent of
        None \<Rightarrow> priority_scan U resp words rest
      | Some data \<Rightarrow>
          if list_ex (\<lambda>pattern. set (split U pattern) \<subseteq> words) (get_patterns data)
          then Some intent
          else priority_scan U resp words rest)"

text \<open>
  The second loop: the catalog in its own order, without \<open>default\<close> and the priority
  intents; an intent wins when one of its patterns is found between word boundaries or
  anywhere in the message.
\<close>

fun other_scan :: "unicode \<Rightarrow> catalog \<Rightarrow> ustring \<Rightarrow> ustring option" where
  "other_scan U [] msg = None"
| "other_scan U ((intent, data) # rest) msg =
     (if intent = u ''default'' \<or> intent \<in> set priority_intents then other_scan U rest msg
      else if list_ex (\<lambda>pattern. boundary_search U pattern msg \<or> contains msg pattern)
                (get_patterns data)
      then Some intent
      else other_scan U rest msg)"

definition match_intent :: "unicode \<Rightarrow> catalog \<Rightarrow> ustring \<Rightarrow> ustring" where
  "match_intent U resp user_message =
     (let msg = strip U (lower U user_message) in
      if truthy (extract_name U msg) then u ''name_intro''
      else if truthy (extract_order_number U msg) then u ''order_tracking''
      else
        (case priority_scan U resp (set (split U msg)) priority_intents of
           Some intent \<Rightarrow> intent
         | None \<Rightarrow>
            (case other_scan U resp msg of
               Some intent \<Rightarrow> intent
             | None \<Rightarrow>
                 if list_ex (\<lambda>greeting. contains msg greeting) greeting_patterns
                 then u ''greeting''
                 else u ''default'')))"

section \<open>Quick replies\<close>

definition SUPPORT_PHONE :: ustring where
  "SUPPORT_PHONE = u ''1-800-123-4567''"

definition quick_replies_map :: "(ustring \<times> ustring list) list" where
  "quick_replies_map =
     [(u ''greeting'', [u ''Store hours'', u ''Return policy'', u ''Shipping info'', u ''Contact us'']),
      (u ''hours'', [u ''Weekend hours'', u ''Holiday hours'', u ''Location hours'']),
      (u ''return'', [u ''Start a return'', u ''Return policy'', u ''Exchange item'', u ''Refund status'']),
      (u ''shipping'', [u ''Track my order'', u ''Shipping cost'', u ''Delivery time'', u ''Free shipping'']),
      (u ''payment'', [u ''Credit card'', u ''PayPal'', u ''Installments'', u ''Gift card'']),
      (u ''contact'', [SUPPORT_PHONE, u ''Email support'', u ''Live chat'', u ''Call me'']),
      (u ''thanks'', [u (''You'' @ [CHR 0x27] @ ''re welcome!''), u ''Any other questions?'',
                      u ''Have a great day!'']),
      (u ''goodbye'', [u ''Thanks for chatting!'', u ''Come back soon!'', u ''Rate your experience'']),
      (u ''default'', [u ''Store hours'', u ''Return policy'', u ''Shipping info'', u ''Contact us''])]"

definition get_quick_replies :: "ustring \<Rightarrow> ustring list" where
  "get_quick_replies intent =
     (case map_of quick_replies_map intent of
        Some qs \<Rightarrow> qs
      | None \<Rightarrow> [u ''Store hours'', u ''Return policy'', u ''Shipping info'', u ''Contact us''])"

section \<open>Sessions and the environment of a turn\<close>

text \<open>An entry of a session's \<open>messages\<close> list.\<close>

record log_entry =
  role :: ustring
  message :: ustring
  timestamp :: ustring

text \<open>The dictionary kept in \<open>conversations\<close> for one session id.\<close>

record session =
  name :: "ustring option"
  message_count :: int
  last_intent :: "ustring option"
  last_order :: "ustring option"
  messages :: "log_entry list"
  created_at :: ustring

type_synonym store = "ustring \<rightharpoonup> session"

text \<open>
  What a turn reads from outside the program: the polarity that TextBlob computes for a
  text (\<open>None\<close> when it raises), the index that \<open>random.choice\<close> draws, the number that
  \<open>random.random()\<close> returns, and the three readings of \<open>datetime.now().isoformat()\<close>.
\<close>

record env =
  polarity :: "ustring \<Rightarrow> real option"
  choice_index :: nat
  draw :: real
  now_created :: ustring
  now_user :: ustring
  now_bot :: ustring

datatype py_error = KeyError | IndexError

text \<open>The values passed to \<open>jsonify\<close>.\<close>

datatype json = JNull | JStr ustring | JInt int | JList "json list" | JObj "(ustring \<times> json) list"

definition analyze_sentiment :: "env \<Rightarrow> ustring \<Rightarrow> ustring" where
  "analyze_sentiment e msg =
     (case polarity e msg of
        None \<Rightarrow> u ''neutral''
      | Some p \<Rightarrow>
          if p > 0.3 then u ''positive''
          else if p < - 0.3 then u ''negative''
          else u ''neutral'')"

section \<open>Response generator\<close>

text \<open>\<open>random.choice(xs)\<close>: IndexError on an empty list.\<close>

definition choice :: "env \<Rightarrow> 'a list \<Rightarrow> py_error + 'a" where
  "choice e xs = (if xs = [] then Inl IndexError else Inr (xs ! (choice_index e mod length xs)))"

text \<open>\<open>responses[intent]['responses']\<close>: KeyError when either key is missing.\<close>

definition pool :: "catalog \<Rightarrow> ustring \<Rightarrow> py_error + ustring list" where
  "pool resp intent =
     (case map_of resp intent of
        None \<Rightarrow> Inl KeyError
      | Some data \<Rightarrow> (case responses data of None \<Rightarrow> Inl KeyError | Some rs \<Rightarrow> Inr rs))"

text \<open>
  The last step of \<open>get_personalized_response\<close>: when the session has a name and the
  draw exceeds 0.5, the name is put in front and the first character of the response is
  lower-cased; \<open>response[0]\<close> raises IndexError on an empty response.
\<close>

definition personalize :: "unicode \<Rightarrow> env \<Rightarrow> session \<Rightarrow> ustring \<Rightarrow> py_error + ustring" where
  "personalize U e session_data response =
     (case name session_data of
        None \<Rightarrow> Inr response
      | Some nm \<Rightarrow>
          if nm \<noteq> [] \<and> draw e > 0.5
          then (case response of
                  [] \<Rightarrow> Inl IndexError
                | c # rest \<Rightarrow> Inr (nm @ u '', '' @ lower U [c] @ rest))
          else Inr response)"

text \<open>The part of \<open>get_personalized_response\<close> after the two entity branches.\<close>

definition catalog_response ::
  "unicode \<Rightarrow> catalog \<Rightarrow> env \<Rightarrow> ustring \<Rightarrow> session \<Rightarrow> py_error + ustring" where
  "catalog_response U resp e intent session_data =
     (case pool resp (if intent \<noteq> u ''default'' \<and> intent \<in> fst ` set resp then intent
                      else u ''default'') of
        Inl err \<Rightarrow> Inl err
      | Inr rs \<Rightarrow>
          (case choice e rs of
             Inl err \<Rightarrow> Inl err
           | Inr response \<Rightarrow> personalize U e session_data response))"

text \<open>The two fixed templates; \<open>0x1F389\<close> and \<open>0x1F4E6\<close> are their emoji.\<close>

definition name_greeting :: "ustring \<Rightarrow> ustring" where
  "name_greeting nm =
     u ''Nice to meet you, '' @ nm @ u ''! '' @ [0x1F389] @ u '' How can I help you today?''"

definition order_status :: "ustring \<Rightarrow> ustring" where
  "order_status order_number =
     u ''Let me check order #'' @ order_number @ u '' for you... '' @ [0x1F4E6]
     @ u ('' It'' @ [CHR 0x27]
          @ ''s currently being processed and will ship within 2 business days.'')"

text \<open>
  \<open>get_personalized_response\<close> returns the session as it has changed it, and the
  response or the exception raised.
\<close>

definition get_personalized_response ::
  "unicode \<Rightarrow> catalog \<Rightarrow> env \<Rightarrow> ustring \<Rightarrow> session \<Rightarrow> ustring
   \<Rightarrow> session \<times> (py_error + ustring)" where
  "get_personalized_response U resp e intent session_data user_message =
     (case (if intent = u ''name_intro'' \<and> truthy (extract_name U user_message)
            then extract_name U user_message else None) of
        Some nm \<Rightarrow> (session_data\<lparr>name := Some nm\<rparr>, Inr (name_greeting nm))
      | None \<Rightarrow>
          (case (if intent = u ''order_tracking'' \<and> truthy (extract_order_number U user_message)
                 then extract_order_number U user_message else None) of
             Some order_number \<Rightarrow>
               (session_data\<lparr>last_order := Some order_number\<rparr>, Inr (order_status order_number))
           | None \<Rightarrow> (session_data, catalog_response U resp e intent session_data)))"

section \<open>Dialogue orchestrator and session store\<close>

text \<open>The JSON body of a request, and \<open>data.get(key, default)\<close>.\<close>

type_synonym request = "(ustring \<times> ustring) list"

definition dict_get :: "request \<Rightarrow> ustring \<Rightarrow> ustring \<Rightarrow> ustring" where
  "dict_get data k d = (case map_of data k of None \<Rightarrow> d | Some v \<Rightarrow> v)"

definition new_session :: "ustring \<Rightarrow> session" where
  "new_session t =
     \<lparr>name = None, message_count = 0, last_intent = None, last_order = None,
      messages = [], created_at = t\<rparr>"

text \<open>The escalation offer; \<open>0x1F91D\<close> is the handshake at its end.\<close>

definition escalation_response :: ustring where
  "escalation_response =
     u ''I notice you seem frustrated. Would you like me to connect you with a human agent? ''
     @ [0x1F91D]"

definition json_opt :: "ustring option \<Rightarrow> json" where
  "json_opt v = (case v of None \<Rightarrow> JNull | Some s \<Rightarrow> JStr s)"

text \<open>
  \<open>chat\<close>: the session dictionary is changed in place, so every change made before a
  return or an exception is in the store that comes back. The body is written over the two
  functions it calls, \<open>classify\<close> for \<open>match_intent\<close> and \<open>respond\<close> for
  \<open>get_personalized_response\<close>, so that a turn that calls neither is a turn whose outcome
  is the same for every pair of functions.
\<close>

definition chat_with ::
  "(ustring \<Rightarrow> ustring)
   \<Rightarrow> (ustring \<Rightarrow> session \<Rightarrow> ustring \<Rightarrow> session \<times> (py_error + ustring))
   \<Rightarrow> env \<Rightarrow> request \<Rightarrow> store \<Rightarrow> store \<times> (py_error + json)" where
  "chat_with classify respond e data conversations =
     (let user_message = dict_get data (u ''message'') [];
          session_id = dict_get data (u ''session_id'') (u ''default'');
          sd0 = (case conversations session_id of
                   None \<Rightarrow> new_session (now_created e)
                 | Some sd \<Rightarrow> sd);
          sd1 = sd0\<lparr>message_count := message_count sd0 + 1\<rparr>;
          sd2 = sd1\<lparr>messages := messages sd1 @
                  [\<lparr>role = u ''user'', message = user_message, timestamp = now_user e\<rparr>]\<rparr>;
          sentiment = analyze_sentiment e user_message
      in
        if sentiment = u ''negative'' \<and> message_count sd2 > 3
        then (conversations(session_id \<mapsto> sd2),
              Inr (JObj [(u ''response'', JStr escalation_response),
                         (u ''sentiment'', JStr sentiment),
                         (u ''quick_replies'',
                            JList [JStr (u ''Yes please''), JStr (u ''No thanks''),
                                   JStr (u ''Continue chat'')]),
                         (u ''session_id'', JStr session_id)]))
        else
          (let intent = classify user_message;
               sd3 = sd2\<lparr>last_intent := Some intent\<rparr>
           in case respond intent sd3 user_message of
                (sd4, Inl err) \<Rightarrow> (conversations(session_id \<mapsto> sd4), Inl err)
              | (sd4, Inr response) \<Rightarrow>
                  (let sd5 = sd4\<lparr>messages := messages sd4 @
                               [\<lparr>role = u ''bot'', message = response, timestamp = now_bot e\<rparr>]\<rparr>
                   in (conversations(session_id \<mapsto> sd5),
                       Inr (JObj [(u ''response'', JStr response),
                                  (u ''intent'', JStr intent),
                                  (u ''sentiment'', JStr sentiment),
                                  (u ''quick_replies'', JList (map JStr (get_quick_replies intent))),
                                  (u ''name'', json_opt (name sd5)),
                                  (u ''session_id'', JStr session_id)])))))"

definition chat ::
  "unicode \<Rightarrow> catalog \<Rightarrow> env \<Rightarrow> request \<Rightarrow> store \<Rightarrow> store \<times> (py_error + json)" where
  "chat U resp e data conversations =
     chat_with (match_intent U resp) (get_personalized_response U resp e) e data conversations"

definition json_entry :: "log_entry \<Rightarrow> json" where
  "json_entry m =
     JObj [(u ''role'', JStr (role m)), (u ''message'', JStr (message m)),
           (u ''timestamp'', JStr (timestamp m))]"

definition get_history :: "ustring \<Rightarrow> store \<Rightarrow> json" where
  "get_history session_id conversations =
     (case conversations session_id of
        Some sd \<Rightarrow>
          JObj [(u ''history'', JList (map json_entry (messages sd))),
                (u ''session_data'',
                   JObj [(u ''name'', json_opt (name sd)),
                         (u ''message_count'', JInt (message_count sd)),
                         (u ''created_at'', JStr (created_at sd))])]
      | None \<Rightarrow> JObj [(u ''history'', JList []), (u ''session_data'', JObj [])])"

definition clear_session :: "ustring \<Rightarrow> store \<Rightarrow> store \<times> json" where
  "clear_session session_id conversations =
     (conversations(session_id := None), JObj [(u ''status'', JStr (u ''cleared''))])"

text \<open>
  The requests a client can send, and the store after a sequence of them, starting
  from the empty \<open>conversations\<close> of a fresh process.
\<close>

datatype op = Chat env request | History ustring | Clear ustring

fun apply_op :: "unicode \<Rightarrow> catalog \<Rightarrow> store \<Rightarrow> op \<Rightarrow> store" where
  "apply_op U resp conversations (Chat e data) = fst (chat U resp e data conversations)"
| "apply_op U resp conversations (History session_id) = conversations"
| "apply_op U resp conversations (Clear session_id) = fst (clear_session session_id conversations)"

definition run :: "unicode \<Rightarrow> catalog \<Rightarrow> op list \<Rightarrow> store" where
  "run U resp ops = foldl (apply_op U resp) Map.empty ops"

section \<open>Definitions used in the statements and proofs\<close>

text \<open>
  Facts of the Unicode tables beyond ASCII that the properties of the extractors rest on.
  Each holds of the tables of CPython, where it can be checked by enumerating the code
  points: no whitespace character is a word character; every decimal digit is a word
  character; the lower case of a character consists of characters that are their own
  lower case, none of them the capital sigma, and so are the two small sigmas; the title
  case of a character is not empty; no whitespace character matches an ASCII literal
  case-insensitively.
\<close>
definition unicode_facts :: "unicode \<Rightarrow> bool" where
  "unicode_facts U =
     ((\<forall>c. \<not> ascii c \<longrightarrow> space_ext U c \<longrightarrow> \<not> word_ext U c) \<and>
      (\<forall>c. \<not> ascii c \<longrightarrow> digit_ext U c \<longrightarrow> word_ext U c) \<and>
      (\<forall>c. \<not> ascii c \<longrightarrow> (\<forall>d\<in>set (lower_ext U c). d \<noteq> 0x3A3 \<and> lower_cp U d = [d])) \<and>
      lower_cp U 0x3C2 = [0x3C2] \<and> lower_cp U 0x3C3 = [0x3C3] \<and>
      (\<forall>c. \<not> ascii c \<longrightarrow> title_ext U c \<noteq> []) \<and>
      (\<forall>c p. \<not> ascii c \<longrightarrow> ascii p \<longrightarrow> space_ext U c \<longrightarrow> \<not> ci_ext U c p))"

text \<open>
  Two properties of a pattern, as a function on the text at a start position: its result
  does not depend on whitespace after the text, and it does not match at a whitespace
  character.
\<close>
definition ignores_trailing_space :: "unicode \<Rightarrow> (ustring \<Rightarrow> ustring option) \<Rightarrow> bool" where
  "ignores_trailing_space U m = (\<forall>s w. (\<forall>c\<in>set w. is_space U c) \<longrightarrow> m (s @ w) = m s)"

definition rejects_leading_space :: "unicode \<Rightarrow> (ustring \<Rightarrow> ustring option) \<Rightarrow> bool" where
  "rejects_leading_space U m = (\<forall>c x. is_space U c \<longrightarrow> m (c # x) = None)"

text \<open>An item that is not a group. The patterns of the program are runs of such items and
  one group at the end.\<close>
definition simple :: "rx_item \<Rightarrow> bool" where
  "simple i = (case i of Group P n \<Rightarrow> False | _ \<Rightarrow> True)"

text \<open>
  An instance of the tables for the examples. Whitespace and the case-insensitive matches
  of ASCII literals are those of CPython for all characters. The classes and case mappings
  are those of CPython on Latin-1 (U+0080 to U+00FF), U+0130, U+0131, U+017F, U+0178,
  U+0307, U+03A3, U+212A and the Arabic-Indic digits U+0660 to U+0669; every other
  character is left without class and unchanged, and a capital sigma is never read as
  final (no example has one).
\<close>
definition example_unicode :: unicode where
  "example_unicode =
     \<lparr>space_ext = (\<lambda>c. c \<in> set [0x85, 0xA0, 0x1680, 0x2000, 0x2001, 0x2002, 0x2003, 0x2004,
                                  0x2005, 0x2006, 0x2007, 0x2008, 0x2009, 0x200A, 0x2028, 0x2029,
                                  0x202F, 0x205F, 0x3000]),
      word_ext = (\<lambda>c. c \<in> set [0xAA, 0xB2, 0xB3, 0xB5, 0xB9, 0xBA, 0xBC, 0xBD, 0xBE,
                                 0x130, 0x131, 0x17F, 0x178, 0x212A, 0x3A3]
                      \<or> 0xC0 \<le> c \<and> c \<le> 0xFF \<and> c \<noteq> 0xD7 \<and> c \<noteq> 0xF7
                      \<or> 0x660 \<le> c \<and> c \<le> 0x669),
      digit_ext = (\<lambda>c. 0x660 \<le> c \<and> c \<le> 0x669),
      lower_ext = (\<lambda>c. if 0xC0 \<le> c \<and> c \<le> 0xDE \<and> c \<noteq> 0xD7 then [c + 32]
                        else if c = 0x130 then [0x69, 0x307]
                        else if c = 0x178 then [0xFF]
                        else if c = 0x212A then [0x6B]
                        else if c = 0x3A3 then [0x3C3]
                        else [c]),
      title_ext = (\<lambda>c. if 0xE0 \<le> c \<and> c \<le> 0xFE \<and> c \<noteq> 0xF7 then [c - 32]
                        else if c = 0xDF then [0x53, 0x73]
                        else if c = 0xFF then [0x178]
                        else if c = 0xB5 then [0x39C]
                        else if c = 0x131 then [0x49]
                        else if c = 0x17F then [0x53]
                        else [c]),
      final_sigma = (\<lambda>s i. False),
      ci_ext = (\<lambda>c p. (c = 0x130 \<or> c = 0x131) \<and> (p = 0x49 \<or> p = 0x69)
                       \<or> c = 0x17F \<and> (p = 0x53 \<or> p = 0x73)
                       \<or> c = 0x212A \<and> (p = 0x4B \<or> p = 0x6B))\<rparr>"

text \<open>
  An environment for the examples: the polarity is \<open>-1.0\<close> for a text with the word
  \<open>terrible\<close> in it and \<open>0.0\<close> otherwise.
\<close>
definition example_env :: env where
  "example_env =
     \<lparr>polarity = (\<lambda>msg. if contains msg (u ''terrible'') then Some (- 1) else Some 0),
      choice_index = 0, draw = 7 / 10,
      now_created = u ''2024-01-01T10:00:00'', now_user = u ''2024-01-01T10:00:01'',
      now_bot = u ''2024-01-01T10:00:02''\<rparr>"

text \<open>The number of entries of the user in the log of a session, and the invariant.\<close>
definition user_entries :: "session \<Rightarrow> nat" where
  "user_entries sd = length (filter (\<lambda>m. role m = u ''user'') (messages sd))"

definition counter_matches_log :: "store \<Rightarrow> bool" where
  "counter_matches_log st = (\<forall>sid sd. st sid = Some sd \<longrightarrow> message_count sd = int (user_entries sd))"

text \<open>A JSON object has a key.\<close>
definition has_field :: "json \<Rightarrow> ustring \<Rightarrow> bool" where
  "has_field j k = (case j of JObj kv \<Rightarrow> k \<in> fst ` set kv | _ \<Rightarrow> False)"

text \<open>The condition of the escalation branch of \<open>chat\<close>, on the state before the turn.\<close>
definition escalates :: "env \<Rightarrow> request \<Rightarrow> store \<Rightarrow> bool" where
  "escalates e data conversations =
     (analyze_sentiment e (dict_get data (u ''message'') []) = u ''negative'' \<and>
      message_count (case conversations (dict_get data (u ''session_id'') (u ''default'')) of
                       None \<Rightarrow> new_session (now_created e) | Some sd \<Rightarrow> sd) + 1 > 3)"

text \<open>Two requests, and the store after three turns of the first.\<close>
definition terrible_request :: request where
  "terrible_request = [(u ''message'', (u ''terrible'')), (u ''session_id'', (u ''s1''))]"

definition hello_request :: request where
  "hello_request = [(u ''message'', (u ''hello'')), (u ''session_id'', (u ''s1''))]"

definition three_turns :: store where
  "three_turns = run example_unicode default_responses (replicate 3 (Chat example_env terrible_request))"

text \<open>A sequence with an escalating fourth turn, a clear and a history read.\<close>
definition mixed_ops :: "op list" where
  "mixed_ops =
     replicate 4 (Chat example_env terrible_request)
     @ [Clear (u ''s2''), History (u ''s1''), Chat example_env hello_request]"

text \<open>
  The contract of the configuration loader: the catalog has a \<open>default\<close> entry, and every
  entry has a non-empty list of responses.
\<close>
definition loader_contract :: "catalog \<Rightarrow> bool" where
  "loader_contract resp =
     (u ''default'' \<in> fst ` set resp \<and>
      list_all (\<lambda>(intent, data). case responses data of None \<Rightarrow> False | Some rs \<Rightarrow> rs \<noteq> []) resp)"

text \<open>No response of the catalog is the empty text.\<close>
definition no_empty_response :: "catalog \<Rightarrow> bool" where
  "no_empty_response resp =
     list_all (\<lambda>(intent, data). case responses data of None \<Rightarrow> True | Some rs \<Rightarrow> [] \<notin> set rs) resp"

text \<open>A catalog within the contract of the loader whose greeting is the empty text.\<close>
definition empty_text_catalog :: catalog where
  "empty_text_catalog =
     [(u ''greeting'', \<lparr>patterns = None, responses = Some [[]]\<rparr>),
      (u ''default'', \<lparr>patterns = None, responses = Some [u ''d'']\<rparr>)]"

text \<open>The session after the turn \<open>my name is Sam\<close>.\<close>
definition sam_session :: session where
  "sam_session =
     \<lparr>name = Some (u ''Sam''), message_count = 1, last_intent = Some (u ''name_intro''),
      last_order = None,
      messages = [\<lparr>role = u ''user'', message = u ''my name is Sam'',
                   timestamp = u ''2024-01-01T10:00:01''\<rparr>,
                  \<lparr>role = u ''bot'', message = name_greeting (u ''Sam''),
                   timestamp = u ''2024-01-01T10:00:02''\<rparr>],
      created_at = u ''2024-01-01T10:00:00''\<rparr>"

section \<open>Properties\<close>

subsection \<open>Literals\<close>

lemma u_eq_iff [simp]: "u a = u b \<longleftrightarrow> a = b"
  by (simp add: u_def inj_map_eq_map inj_of_char)

lemma u_Nil [simp]: "u [] = []"
  by (simp add: u_def)

lemma u_eq_Nil [simp]: "u a = [] \<longleftrightarrow> a = []"
  by (simp add: u_def)

subsection \<open>Character classes\<close>

lemma space_not_word:
  assumes "unicode_facts U" and "is_space U c"
  shows "\<not> is_word U c"
proof (cases "ascii c")
  case True
  with assms(2) show ?thesis
    by (auto simp add: is_space_def is_word_def ascii_space_def ascii_word_def ascii_digit_def)
next
  case False
  with assms show ?thesis
    by (simp add: is_space_def is_word_def unicode_facts_def)
qed

lemma digit_is_word:
  assumes "unicode_facts U" and "is_digit U c"
  shows "is_word U c"
proof (cases "ascii c")
  case True
  with assms(2) show ?thesis
    by (simp add: is_digit_def is_word_def ascii_word_def)
next
  case False
  with assms show ?thesis
    by (simp add: is_digit_def is_word_def unicode_facts_def)
qed

lemma space_not_digit:
  assumes "unicode_facts U" and "is_space U c"
  shows "\<not> is_digit U c"
  using assms space_not_word digit_is_word by blast

subsection \<open>Lower case and capitals\<close>

lemma lower_cp_ascii_fixed:
  assumes "ascii c"
  shows "\<forall>d\<in>set (lower_cp U c). d \<noteq> 0x3A3 \<and> lower_cp U d = [d]"
  using assms by (auto simp add: lower_cp_def ascii_def ascii_lower_def)

lemma lower_cp_fixed:
  assumes "unicode_facts U" and "d \<in> set (lower_cp U c)"
  shows "d \<noteq> 0x3A3 \<and> lower_cp U d = [d]"
proof (cases "ascii c")
  case True
  with assms(2) lower_cp_ascii_fixed show ?thesis by blast
next
  case False
  with assms(2) have "d \<in> set (lower_ext U c)" by (simp add: lower_cp_def)
  with assms(1) False show ?thesis by (simp add: unicode_facts_def)
qed

lemma lower_at_fixed:
  assumes "unicode_facts U" and "d \<in> set (lower_at U s i)"
  shows "d \<noteq> 0x3A3 \<and> lower_cp U d = [d]"
proof (cases "s ! i = 0x3A3")
  case True
  with assms(2) have "d = 0x3C2 \<or> d = 0x3C3"
    by (auto simp add: lower_at_def split: if_splits)
  with assms(1) show ?thesis by (auto simp add: unicode_facts_def)
next
  case False
  with assms(2) have "d \<in> set (lower_cp U (s ! i))" by (simp add: lower_at_def)
  with assms(1) show ?thesis by (rule lower_cp_fixed)
qed

lemma lower_fixed:
  assumes "unicode_facts U" and "d \<in> set (lower U s)"
  shows "d \<noteq> 0x3A3 \<and> lower_cp U d = [d]"
proof -
  from assms(2) obtain i where "d \<in> set (lower_at U s i)"
    by (auto simp add: lower_def)
  with assms(1) show ?thesis by (rule lower_at_fixed)
qed

lemma lower_id:
  assumes "\<forall>d\<in>set t. d \<noteq> 0x3A3 \<and> lower_cp U d = [d]"
  shows "lower U t = t"
proof -
  have a: "map (lower_at U t) [0 ..< length t] = map (\<lambda>i. [t ! i]) [0 ..< length t]"
    using assms by (simp add: lower_at_def)
  have b: "concat (map (\<lambda>i. [f i]) xs) = map f xs" for f :: "nat \<Rightarrow> cp" and xs
    by (induction xs) simp_all
  show ?thesis
    unfolding lower_def a b by (rule map_nth)
qed

lemma set_strip: "set (strip U s) \<subseteq> set s"
  by (auto simp add: strip_def dest!: set_dropWhileD)

lemma lower_strip_lower:
  assumes "unicode_facts U"
  shows "lower U (strip U (lower U msg)) = strip U (lower U msg)"
proof (rule lower_id, rule ballI)
  fix d assume "d \<in> set (strip U (lower U msg))"
  with set_strip have "d \<in> set (lower U msg)" by blast
  with assms show "d \<noteq> 0x3A3 \<and> lower_cp U d = [d]" by (rule lower_fixed)
qed


subsection \<open>Searching a text that is stripped\<close>

lemma search_spaces:
  assumes "ignores_trailing_space U m" and "\<forall>c\<in>set w. is_space U c"
  shows "search m w = m []"
  using assms(2)
proof (induction w)
  case Nil
  show ?case by simp
next
  case (Cons c w)
  have "m ([] @ (c # w)) = m []"
    using assms(1) Cons.prems unfolding ignores_trailing_space_def by blast
  with Cons show ?case by (simp split: option.splits)
qed

lemma search_trailing:
  assumes "ignores_trailing_space U m" and "\<forall>c\<in>set w. is_space U c"
  shows "search m (t @ w) = search m t"
proof (induction t)
  case Nil
  show ?case using search_spaces [OF assms] by simp
next
  case (Cons c t)
  have "m ((c # t) @ w) = m (c # t)"
    using assms unfolding ignores_trailing_space_def by blast
  with Cons show ?case by (simp split: option.splits)
qed

lemma search_leading:
  assumes "rejects_leading_space U m"
  shows "search m (dropWhile (is_space U) s) = search m s"
proof (induction s)
  case Nil
  show ?case by simp
next
  case (Cons c s)
  show ?case
  proof (cases "is_space U c")
    case True
    then have "m (c # s) = None"
      using assms unfolding rejects_leading_space_def by blast
    with True Cons show ?thesis by simp
  next
    case False
    then show ?thesis by simp
  qed
qed

lemma strip_decomp:
  "\<exists>w. (\<forall>c\<in>set w. is_space U c) \<and> dropWhile (is_space U) s = strip U s @ w"
proof -
  let ?P = "is_space U"
  let ?s1 = "dropWhile ?P s"
  let ?w = "rev (takeWhile ?P (rev ?s1))"
  have "rev (takeWhile ?P (rev ?s1) @ dropWhile ?P (rev ?s1)) = ?s1"
    by (simp only: takeWhile_dropWhile_id rev_rev_ident)
  then have "rev (dropWhile ?P (rev ?s1)) @ ?w = ?s1"
    by (simp only: rev_append)
  then have "?s1 = strip U s @ ?w"
    by (simp only: strip_def)
  moreover have "\<forall>c\<in>set ?w. ?P c"
    by (auto dest: set_takeWhileD)
  ultimately show ?thesis by blast
qed

lemma search_strip:
  assumes "ignores_trailing_space U m" and "rejects_leading_space U m"
  shows "search m (strip U s) = search m s"
proof -
  obtain w where w: "\<forall>c\<in>set w. is_space U c" "dropWhile (is_space U) s = strip U s @ w"
    using strip_decomp by blast
  have "search m s = search m (strip U s @ w)"
    using search_leading [OF assms(2), of s] w(2) by simp
  also have "\<dots> = search m (strip U s)"
    using search_trailing [OF assms(1) w(1)] by simp
  finally show ?thesis by simp
qed

subsection \<open>The backtracking matcher on a pattern that ends with its group\<close>

lemma rmatch_Ch_Nil: "rmatch U ci (Ch p # r) [] cap = None"
  by simp

lemma rmatch_Ch_Cons:
  "rmatch U ci (Ch p # r) (c # s) cap = (if ch_eq U ci c p then rmatch U ci r s cap else None)"
  by simp

lemma rmatch_Star:
  "rmatch U ci (Star P # r) s cap
     = first_some (\<lambda>k. rmatch U ci r (drop k s) cap) (greedy P 0 s)"
  by simp

lemma rmatch_Opt_Nil: "rmatch U ci (Opt p # r) [] cap = rmatch U ci r [] cap"
  by simp

lemma rmatch_Opt_Cons:
  "rmatch U ci (Opt p # r) (c # t) cap
     = (if ch_eq U ci c p
        then (case rmatch U ci r t cap of
                Some g \<Rightarrow> Some g
              | None \<Rightarrow> rmatch U ci r (c # t) cap)
        else rmatch U ci r (c # t) cap)"
  by simp

lemma first_some_None: "(\<forall>x\<in>set xs. f x = None) \<Longrightarrow> first_some f xs = None"
  by (induction xs) simp_all

lemma first_some_Some: "first_some f xs = Some y \<Longrightarrow> \<exists>x\<in>set xs. f x = Some y"
  by (induction xs) (auto split: option.splits)

lemma first_some_append:
  "first_some f (xs @ ys)
     = (case first_some f xs of Some y \<Rightarrow> Some y | None \<Rightarrow> first_some f ys)"
  by (induction xs) (simp_all split: option.splits)

lemma first_some_cong:
  "(\<forall>x\<in>set xs. f x = g x) \<Longrightarrow> first_some f xs = first_some g xs"
  by (induction xs) (simp_all split: option.splits)

lemma take_run: "take (length (takeWhile P s)) s = takeWhile P s"
  by (induction s) simp_all

lemma rmatch_group:
  "rmatch U ci [Group P n] s cap
     = (if n \<le> length (takeWhile P s) then Some (takeWhile P s) else None)"
proof (cases "n \<le> length (takeWhile P s)")
  case True
  then have "[n ..< Suc (length (takeWhile P s))]
             = [n ..< length (takeWhile P s)] @ [length (takeWhile P s)]"
    by simp
  with True show ?thesis
    by (simp add: greedy_def take_run del: upt_Suc)
next
  case False
  then show ?thesis by (simp add: greedy_def)
qed

lemma takeWhile_append_none:
  assumes "\<forall>c\<in>set w. \<not> P c"
  shows "takeWhile P (x @ w) = takeWhile P x"
proof (induction x)
  case Nil
  from assms show ?case by (cases w) simp_all
next
  case (Cons a x)
  then show ?case by simp
qed

lemma never_empty:
  assumes "\<forall>i\<in>set items. simple i" and "1 \<le> n"
  shows "rmatch U ci (items @ [Group P n]) [] cap = None"
  using assms(1)
proof (induction items)
  case Nil
  from assms(2) show ?case by (simp only: append_Nil rmatch_group) simp
next
  case (Cons i items)
  then have ih: "rmatch U ci (items @ [Group P n]) [] cap = None" by simp
  from Cons.prems have "simple i" by simp
  then show ?case
  proof (cases i)
    case (Ch p)
    then show ?thesis by (simp only: append_Cons rmatch_Ch_Nil)
  next
    case (Star Q)
    have "rmatch U ci (Star Q # items @ [Group P n]) [] cap
            = first_some (\<lambda>k. rmatch U ci (items @ [Group P n]) (drop k []) cap) (greedy Q 0 [])"
      by (rule rmatch_Star)
    also have "\<dots> = None"
      by (rule first_some_None) (simp add: ih)
    finally show ?thesis using Star by simp
  next
    case (Opt p)
    then show ?thesis by (simp only: append_Cons rmatch_Opt_Nil ih)
  next
    case (Group Q m)
    with \<open>simple i\<close> show ?thesis by (simp add: simple_def)
  qed
qed

lemma greedy_append:
  "\<exists>ks. greedy Q 0 (s @ w) = ks @ greedy Q 0 s \<and> (\<forall>k\<in>set ks. length s < k)"
proof (cases "\<forall>x\<in>set s. Q x")
  case True
  then have L: "length (takeWhile Q s) = length s"
    by (simp add: takeWhile_eq_all_conv [THEN iffD2])
  from True have L': "length (takeWhile Q (s @ w)) = length s + length (takeWhile Q w)"
    by (simp add: takeWhile_append2)
  let ?m = "length (takeWhile Q w)"
  have "[0 ..< Suc (length s + ?m)] = [0 ..< Suc (length s)] @ [Suc (length s) ..< Suc (length s + ?m)]"
    using upt_add_eq_append [of 0 "Suc (length s)" ?m] by simp
  then have "greedy Q 0 (s @ w)
             = rev [Suc (length s) ..< Suc (length s + ?m)] @ greedy Q 0 s"
    by (simp only: greedy_def L L' rev_append)
  moreover have "\<forall>k\<in>set (rev [Suc (length s) ..< Suc (length s + ?m)]). length s < k"
    by (auto simp del: upt_Suc)
  ultimately show ?thesis by blast
next
  case False
  then obtain x where "x \<in> set s" "\<not> Q x" by blast
  then have "takeWhile Q (s @ w) = takeWhile Q s"
    by (simp add: takeWhile_append1)
  then have "greedy Q 0 (s @ w) = [] @ greedy Q 0 s"
    by (simp add: greedy_def)
  then show ?thesis by (metis empty_iff list.set(1))
qed

lemma greedy_bound: "k \<in> set (greedy Q n s) \<Longrightarrow> n \<le> k \<and> k \<le> length (takeWhile Q s) \<and> k \<le> length s"
proof -
  assume "k \<in> set (greedy Q n s)"
  then have "n \<le> k \<and> k \<le> length (takeWhile Q s)" by (auto simp add: greedy_def)
  moreover have "length (takeWhile Q s) \<le> length s" by (rule length_takeWhile_le)
  ultimately show ?thesis by simp
qed

lemma trailing:
  assumes "\<forall>i\<in>set items. simple i" and "1 \<le> n"
  shows "(\<forall>c\<in>set w. \<not> P c) \<Longrightarrow>
         rmatch U ci (items @ [Group P n]) (s @ w) cap = rmatch U ci (items @ [Group P n]) s cap"
  using assms(1)
proof (induction items arbitrary: s w cap)
  case Nil
  then have "takeWhile P (s @ w) = takeWhile P s"
    by (intro takeWhile_append_none) simp
  then show ?case by (simp only: append_Nil rmatch_group)
next
  case (Cons i items)
  let ?r = "items @ [Group P n]"
  from Cons.prems have si: "simple i" and sr: "\<forall>i\<in>set items. simple i" by simp_all
  have ih: "rmatch U ci ?r (t @ v) cp = rmatch U ci ?r t cp" if "\<forall>c\<in>set v. \<not> P c" for t v cp
    using Cons.IH [OF that sr] .
  have tail: "rmatch U ci ?r v cp = None" if "\<forall>c\<in>set v. \<not> P c" for v cp
    using ih [OF that, of "[]" cp] never_empty [OF sr assms(2)] by simp
  note w = Cons.prems(1)
  show ?case
  proof (cases i)
    case (Ch p)
    show ?thesis
    proof (cases s)
      case Nil
      show ?thesis
      proof (cases w)
        case Nil
        with \<open>s = []\<close> show ?thesis by simp
      next
        case (Cons c v)
        with w have "\<forall>c\<in>set v. \<not> P c" by simp
        from tail [OF this] Cons \<open>s = []\<close> Ch show ?thesis
          by (simp only: append_Cons append_Nil rmatch_Ch_Cons rmatch_Ch_Nil if_cancel)
      qed
    next
      case (Cons c t)
      with Ch ih [OF w] show ?thesis
        by (simp only: append_Cons rmatch_Ch_Cons)
    qed
  next
    case (Star Q)
    let ?f' = "\<lambda>k. rmatch U ci ?r (drop k (s @ w)) cap"
    let ?f = "\<lambda>k. rmatch U ci ?r (drop k s) cap"
    obtain ks where ks: "greedy Q 0 (s @ w) = ks @ greedy Q 0 s" "\<forall>k\<in>set ks. length s < k"
      using greedy_append by blast
    have "\<forall>k\<in>set ks. ?f' k = None"
    proof
      fix k assume "k \<in> set ks"
      with ks(2) have "length s < k" by simp
      then have d: "drop k (s @ w) = drop (k - length s) w" by simp
      from w have "\<forall>c\<in>set (drop (k - length s) w). \<not> P c"
        by (blast dest: in_set_dropD)
      from tail [OF this] d show "?f' k = None" by simp
    qed
    then have a: "first_some ?f' ks = None" by (rule first_some_None)
    have "\<forall>k\<in>set (greedy Q 0 s). ?f' k = ?f k"
    proof
      fix k assume "k \<in> set (greedy Q 0 s)"
      then have "k \<le> length s" using greedy_bound by blast
      then have "drop k (s @ w) = drop k s @ w" by simp
      with ih [OF w] show "?f' k = ?f k" by simp
    qed
    then have b: "first_some ?f' (greedy Q 0 s) = first_some ?f (greedy Q 0 s)"
      by (rule first_some_cong)
    have "rmatch U ci (Star Q # ?r) (s @ w) cap = first_some ?f' (greedy Q 0 (s @ w))"
      by (rule rmatch_Star)
    also have "\<dots> = first_some ?f (greedy Q 0 s)"
      by (simp only: ks(1) first_some_append a b option.case)
    also have "\<dots> = rmatch U ci (Star Q # ?r) s cap"
      by (rule rmatch_Star [symmetric])
    finally show ?thesis using Star by simp
  next
    case (Opt p)
    show ?thesis
    proof (cases s)
      case Nil
      show ?thesis
      proof (cases w)
        case Nil
        with \<open>s = []\<close> show ?thesis by simp
      next
        case (Cons c v)
        with w have "\<forall>c\<in>set v. \<not> P c" by simp
        from tail [OF this] tail [OF w] tail [of "[]"] Cons \<open>s = []\<close> Opt show ?thesis
          by (simp only: append_Cons append_Nil rmatch_Opt_Cons rmatch_Opt_Nil) simp
      qed
    next
      case (Cons c t)
      have "rmatch U ci ?r (t @ w) cap = rmatch U ci ?r t cap"
           "rmatch U ci ?r (c # t @ w) cap = rmatch U ci ?r (c # t) cap"
        using ih [OF w, of t cap] ih [OF w, of "c # t" cap] by simp_all
      with Cons Opt show ?thesis
        by (simp only: append_Cons rmatch_Opt_Cons)
    qed
  next
    case (Group Q m)
    with si show ?thesis by (simp add: simple_def)
  qed
qed

lemma capture:
  assumes "\<forall>i\<in>set items. simple i"
  shows "rmatch U ci (items @ [Group P n]) s cap = Some d
         \<Longrightarrow> n \<le> length d \<and> (\<forall>c\<in>set d. P c)"
  using assms
proof (induction items arbitrary: s)
  case Nil
  then have "n \<le> length (takeWhile P s)" and "d = takeWhile P s"
    by (simp_all only: append_Nil rmatch_group split: if_splits) simp_all
  then show ?case by (auto dest: set_takeWhileD)
next
  case (Cons i items)
  let ?r = "items @ [Group P n]"
  from Cons.prems have si: "simple i" and sr: "\<forall>i\<in>set items. simple i" by simp_all
  have ih: "rmatch U ci ?r t cap = Some d \<Longrightarrow> n \<le> length d \<and> (\<forall>c\<in>set d. P c)" for t
    using Cons.IH [OF _ sr] .
  note m = Cons.prems(1)
  show ?case
  proof (cases i)
    case (Ch p)
    with m obtain c t where "s = c # t" "rmatch U ci ?r t cap = Some d"
      by (cases s) (simp_all split: if_splits)
    then show ?thesis using ih by blast
  next
    case (Star Q)
    with m have "first_some (\<lambda>k. rmatch U ci ?r (drop k s) cap) (greedy Q 0 s) = Some d"
      by (simp only: append_Cons rmatch_Star)
    then obtain k where "rmatch U ci ?r (drop k s) cap = Some d"
      using first_some_Some by fast
    then show ?thesis using ih by blast
  next
    case (Opt p)
    with m have "\<exists>t. rmatch U ci ?r t cap = Some d"
      by (cases s) (auto simp only: append_Cons rmatch_Opt_Cons rmatch_Opt_Nil
          split: if_splits option.splits)
    then show ?thesis using ih by blast
  next
    case (Group Q m)
    with si show ?thesis by (simp add: simple_def)
  qed
qed

subsection \<open>The patterns of the extractors\<close>

lemma lit_simple: "\<forall>i\<in>set (lit l). simple i"
  by (simp add: lit_def simple_def)

lemma re_match_trailing:
  assumes "unicode_facts U" and "\<forall>i\<in>set items. simple i" and "1 \<le> n"
    and "\<forall>c. is_space U c \<longrightarrow> \<not> P c"
  shows "ignores_trailing_space U (re_match U ci (items @ [Group P n]))"
  unfolding ignores_trailing_space_def re_match_def
proof (intro allI impI)
  fix s w :: ustring
  assume "\<forall>c\<in>set w. is_space U c"
  with assms(4) have "\<forall>c\<in>set w. \<not> P c" by blast
  then show "rmatch U ci (items @ [Group P n]) (s @ w) [] = rmatch U ci (items @ [Group P n]) s []"
    by (rule trailing [OF assms(2,3)])
qed

lemma re_match_leading:
  assumes "\<forall>c. is_space U c \<longrightarrow> \<not> ch_eq U ci c (of_char p)"
  shows "rejects_leading_space U (re_match U ci (lit (p # l) @ r))"
  unfolding rejects_leading_space_def re_match_def
  using assms by (simp add: lit_def u_def)

lemma space_ascii_lower: "ascii c \<Longrightarrow> ascii_space c \<Longrightarrow> ascii_lower c = c"
  by (auto simp add: ascii_space_def ascii_lower_def)

lemma ci_space:
  assumes "unicode_facts U" and "ascii p" and "\<not> ascii_space (ascii_lower p)"
  shows "\<forall>c. is_space U c \<longrightarrow> \<not> ch_eq U True c p"
proof (intro allI impI)
  fix c assume sp: "is_space U c"
  show "\<not> ch_eq U True c p"
  proof (cases "ascii c")
    case True
    with sp have "ascii_space c" by (simp add: is_space_def)
    with True have "ascii_lower c = c" by (rule space_ascii_lower)
    with \<open>ascii_space c\<close> assms(3) have "ascii_lower c \<noteq> ascii_lower p" by auto
    with True assms(2) show ?thesis by (simp add: ch_eq_def ci_eq_def)
  next
    case False
    with sp have "space_ext U c" by (simp add: is_space_def)
    with assms(1,2) False have "\<not> ci_ext U c p" by (simp add: unicode_facts_def)
    with False show ?thesis by (simp add: ch_eq_def ci_eq_def)
  qed
qed

lemma exact_space:
  assumes "\<not> is_space U p"
  shows "\<forall>c. is_space U c \<longrightarrow> \<not> ch_eq U False c p"
  using assms by (auto simp add: ch_eq_def)

lemma name_regex_shape:
  assumes "unicode_facts U" and "\<not> is_space U (of_char p)"
  shows "ignores_trailing_space U (re_match U False (lit (p # l) @ [Group (is_word U) 1]))
       \<and> rejects_leading_space U (re_match U False (lit (p # l) @ [Group (is_word U) 1]))"
proof
  have "\<forall>c. is_space U c \<longrightarrow> \<not> is_word U c"
    using assms(1) space_not_word by blast
  with assms(1) lit_simple
  show "ignores_trailing_space U (re_match U False (lit (p # l) @ [Group (is_word U) 1]))"
    by (intro re_match_trailing) simp_all
  from assms(2)
  show "rejects_leading_space U (re_match U False (lit (p # l) @ [Group (is_word U) 1]))"
    by (intro re_match_leading exact_space)
qed

lemma letters_not_space:
  "\<not> is_space U (of_char CHR ''m'')" "\<not> is_space U (of_char CHR ''i'')"
  "\<not> is_space U (of_char CHR ''c'')" "\<not> is_space U (of_char CHR ''t'')"
  by (simp_all add: is_space_def ascii_def ascii_space_def)

lemma name_regexes_shape:
  assumes "unicode_facts U"
  shows "\<forall>r\<in>set (name_regexes U). ignores_trailing_space U (re_match U False r)
                                 \<and> rejects_leading_space U (re_match U False r)"
  by (simp add: name_regexes_def
      name_regex_shape [OF assms letters_not_space(1)]
      name_regex_shape [OF assms letters_not_space(2)]
      name_regex_shape [OF assms letters_not_space(3)]
      name_regex_shape [OF assms letters_not_space(4)]
      del: One_nat_def)

lemma order_regex_shape:
  assumes "unicode_facts U" and "\<forall>i\<in>set items. simple i"
    and "ascii (of_char p)" and "\<not> ascii_space (ascii_lower (of_char p))"
  shows "ignores_trailing_space U (re_match U True (lit (p # l) @ items @ [Group (is_digit U) 5]))
       \<and> rejects_leading_space U (re_match U True (lit (p # l) @ items @ [Group (is_digit U) 5]))"
proof
  have d: "\<forall>c. is_space U c \<longrightarrow> \<not> is_digit U c"
    using assms(1) space_not_digit by blast
  have s: "\<forall>i\<in>set (lit (p # l) @ items). simple i"
    using assms(2) lit_simple by auto
  have "ignores_trailing_space U
          (re_match U True ((lit (p # l) @ items) @ [Group (is_digit U) 5]))"
    using assms(1) s _ d by (rule re_match_trailing) simp
  then show "ignores_trailing_space U
          (re_match U True (lit (p # l) @ items @ [Group (is_digit U) 5]))"
    by simp
  show "rejects_leading_space U (re_match U True (lit (p # l) @ items @ [Group (is_digit U) 5]))"
    using assms(1,3,4) by (intro re_match_leading ci_space)
qed

lemma order_regexes_shape:
  assumes "unicode_facts U"
  shows "\<forall>r\<in>set (order_regexes U). ignores_trailing_space U (re_match U True r)
                                  \<and> rejects_leading_space U (re_match U True r)"
proof -
  have a: "ignores_trailing_space U
             (re_match U True (lit ''order'' @ [Star (is_space U), Opt 0x23, Star (is_space U)]
                               @ [Group (is_digit U) 5]))
         \<and> rejects_leading_space U
             (re_match U True (lit ''order'' @ [Star (is_space U), Opt 0x23, Star (is_space U)]
                               @ [Group (is_digit U) 5]))"
    by (rule order_regex_shape [OF assms])
       (simp_all add: simple_def ascii_def ascii_space_def ascii_lower_def)
  have b: "ignores_trailing_space U (re_match U True (lit ''#'' @ [] @ [Group (is_digit U) 5]))
         \<and> rejects_leading_space U (re_match U True (lit ''#'' @ [] @ [Group (is_digit U) 5]))"
    by (rule order_regex_shape [OF assms])
       (simp_all add: simple_def ascii_def ascii_space_def ascii_lower_def)
  have c: "ignores_trailing_space U
             (re_match U True (lit ''ORD'' @ [Opt 0x2D] @ [Group (is_digit U) 5]))
         \<and> rejects_leading_space U
             (re_match U True (lit ''ORD'' @ [Opt 0x2D] @ [Group (is_digit U) 5]))"
    by (rule order_regex_shape [OF assms])
       (simp_all add: simple_def ascii_def ascii_space_def ascii_lower_def)
  have d: "ignores_trailing_space U
             (re_match U True (lit ''tracking'' @ [Star (is_space U), Opt 0x23, Star (is_space U)]
                               @ [Group (is_digit U) 5]))
         \<and> rejects_leading_space U
             (re_match U True (lit ''tracking'' @ [Star (is_space U), Opt 0x23, Star (is_space U)]
                               @ [Group (is_digit U) 5]))"
    by (rule order_regex_shape [OF assms])
       (simp_all add: simple_def ascii_def ascii_space_def ascii_lower_def)
  from a b c d show ?thesis
    by (simp add: order_regexes_def)
qed

subsection \<open>What the extractors return\<close>

lemma search_Some: "search m s = Some g \<Longrightarrow> \<exists>x. m x = Some g"
  by (induction s) (auto split: option.splits)


lemma order_regexes_digits:
  assumes "r \<in> set (order_regexes U)" and "re_search U True r s = Some d"
  shows "5 \<le> length d \<and> (\<forall>c\<in>set d. is_digit U c)"
proof -
  from assms(2) obtain x where x: "rmatch U True r x [] = Some d"
    unfolding re_search_def using search_Some [of "re_match U True r" s d]
    by (auto simp add: re_match_def)
  from assms(1) obtain items where "r = items @ [Group (is_digit U) 5]" "\<forall>i\<in>set items. simple i"
  proof -
    assume th: "\<And>items. r = items @ [Group (is_digit U) 5] \<Longrightarrow> \<forall>i\<in>set items. simple i \<Longrightarrow> thesis"
    from assms(1) consider
        "r = (lit ''order'' @ [Star (is_space U), Opt 0x23, Star (is_space U)]) @ [Group (is_digit U) 5]"
      | "r = lit ''#'' @ [Group (is_digit U) 5]"
      | "r = (lit ''ORD'' @ [Opt 0x2D]) @ [Group (is_digit U) 5]"
      | "r = (lit ''tracking'' @ [Star (is_space U), Opt 0x23, Star (is_space U)]) @ [Group (is_digit U) 5]"
      by (auto simp add: order_regexes_def)
    then show thesis
    proof cases
      case 1
      then show ?thesis using lit_simple by (intro th) (assumption, simp add: simple_def)
    next
      case 2
      then show ?thesis using lit_simple by (intro th) (assumption, simp add: simple_def)
    next
      case 3
      then show ?thesis using lit_simple by (intro th) (assumption, simp add: simple_def)
    next
      case 4
      then show ?thesis using lit_simple by (intro th) (assumption, simp add: simple_def)
    qed
  qed
  with x show ?thesis
    using capture [of items U True "is_digit U" 5 x "[]" d] by simp
qed

subsection \<open>The extractors on the classifier's normalised message\<close>

lemma first_match_cong:
  assumes "\<forall>r\<in>set rs. re_search U True r s = re_search U True r s'"
  shows "first_match U rs s = first_match U rs s'"
  using assms by (induction rs) (simp_all split: option.splits)

lemma first_name_cong:
  assumes "\<forall>r\<in>set rs. re_search U False r s = re_search U False r s'"
  shows "first_name U rs s = first_name U rs s'"
  using assms by (induction rs) (simp_all split: option.splits)

lemma first_name_stripped:
  assumes "unicode_facts U"
  shows "first_name U (name_regexes U) (strip U s) = first_name U (name_regexes U) s"
proof (rule first_name_cong, rule ballI)
  fix r assume "r \<in> set (name_regexes U)"
  with name_regexes_shape [OF assms]
  have "ignores_trailing_space U (re_match U False r)" "rejects_leading_space U (re_match U False r)"
    by auto
  then show "re_search U False r (strip U s) = re_search U False r s"
    by (simp only: re_search_def search_strip)
qed

lemma extract_name_normalised:
  assumes "unicode_facts U"
  shows "extract_name U (strip U (lower U msg)) = extract_name U msg"
  by (simp only: extract_name_def lower_strip_lower [OF assms] first_name_stripped [OF assms])

lemma extract_order_number_stripped:
  assumes "unicode_facts U"
  shows "extract_order_number U (strip U s) = extract_order_number U s"
  unfolding extract_order_number_def
proof (rule first_match_cong, rule ballI)
  fix r assume "r \<in> set (order_regexes U)"
  with order_regexes_shape [OF assms]
  have "ignores_trailing_space U (re_match U True r)" "rejects_leading_space U (re_match U True r)"
    by auto
  then show "re_search U True r (strip U s) = re_search U True r s"
    by (simp only: re_search_def search_strip)
qed

subsection \<open>The first two rules of the classifier\<close>


lemma match_intent_order:
  assumes "unicode_facts U" and "extract_name U msg = None"
    and "extract_order_number U (lower U msg) = Some d" and "d \<noteq> []"
  shows "match_intent U resp msg = u ''order_tracking''"
  using assms(2,3,4)
  by (simp add: match_intent_def extract_name_normalised [OF assms(1)]
      extract_order_number_stripped [OF assms(1)])

subsection \<open>The example tables\<close>

lemma example_unicode_facts: "unicode_facts example_unicode"
  unfolding unicode_facts_def
proof (intro conjI allI impI ballI)
  fix c :: cp
  assume "\<not> ascii c" "space_ext example_unicode c"
  then show "\<not> word_ext example_unicode c"
    by (auto simp add: example_unicode_def)
next
  fix c :: cp
  assume "\<not> ascii c" "digit_ext example_unicode c"
  then show "word_ext example_unicode c"
    by (simp add: example_unicode_def)
next
  fix c d :: cp
  assume "\<not> ascii c" "d \<in> set (lower_ext example_unicode c)"
  then show "d \<noteq> 0x3A3"
    by (auto simp add: example_unicode_def ascii_def split: if_splits)
next
  fix c d :: cp
  assume "\<not> ascii c" "d \<in> set (lower_ext example_unicode c)"
  then show "lower_cp example_unicode d = [d]"
    by (auto simp add: example_unicode_def lower_cp_def ascii_def ascii_lower_def split: if_splits)
next
  show "lower_cp example_unicode 0x3C2 = [0x3C2]"
    by (simp add: example_unicode_def lower_cp_def ascii_def)
next
  show "lower_cp example_unicode 0x3C3 = [0x3C3]"
    by (simp add: example_unicode_def lower_cp_def ascii_def)
next
  fix c :: cp
  assume "\<not> ascii c"
  then show "title_ext example_unicode c \<noteq> []"
    by (simp add: example_unicode_def)
next
  fix c p :: cp
  assume "\<not> ascii c" "ascii p" "space_ext example_unicode c"
  then show "\<not> ci_ext example_unicode c p"
    by (auto simp add: example_unicode_def)
qed

subsection \<open>The escalation branch\<close>

text \<open>
  C1. A turn whose sentiment is negative and whose message counter, after the increment of
  this turn, is greater than 3 returns the fixed escalation text with the quick replies
  Yes please, No thanks, Continue chat. The result is the same whatever functions stand for
  the intent classifier and the response generator: the turn calls neither.
\<close>
theorem escalation_short_circuit:
  assumes "analyze_sentiment e (dict_get data (u ''message'') []) = u ''negative''"
    and "message_count (case conversations (dict_get data (u ''session_id'') (u ''default'')) of
                          None \<Rightarrow> new_session (now_created e) | Some sd \<Rightarrow> sd) + 1 > 3"
  shows "snd (chat_with classify respond e data conversations) =
           Inr (JObj [(u ''response'',
                       JStr (u ''I notice you seem frustrated. Would you like me to connect you with a human agent? ''
                             @ [0x1F91D])),
                      (u ''sentiment'', JStr (u ''negative'')),
                      (u ''quick_replies'',
                         JList [JStr (u ''Yes please''), JStr (u ''No thanks''), JStr (u ''Continue chat'')]),
                      (u ''session_id'', JStr (dict_get data (u ''session_id'') (u ''default'')))])
       \<and> chat U resp e data conversations = chat_with classify respond e data conversations"
  using assms by (simp add: chat_def chat_with_def Let_def escalation_response_def)

theorem escalation_short_circuit_witness:
  "analyze_sentiment example_env (dict_get terrible_request (u ''message'') []) = u ''negative''
   \<and> message_count (case three_turns (dict_get terrible_request (u ''session_id'') (u ''default'')) of
                       None \<Rightarrow> new_session (now_created example_env) | Some sd \<Rightarrow> sd) + 1 > 3
   \<and> snd (chat example_unicode default_responses example_env terrible_request three_turns) =
         Inr (JObj [(u ''response'',
                     JStr (u ''I notice you seem frustrated. Would you like me to connect you with a human agent? ''
                           @ [0x1F91D])),
                    (u ''sentiment'', JStr (u ''negative'')),
                    (u ''quick_replies'',
                       JList [JStr (u ''Yes please''), JStr (u ''No thanks''), JStr (u ''Continue chat'')]),
                    (u ''session_id'', JStr (u ''s1''))])"
proof -
  have h1: "analyze_sentiment example_env (dict_get terrible_request (u ''message'') []) = u ''negative''"
    by code_simp
  have h2: "message_count (case three_turns (dict_get terrible_request (u ''session_id'') (u ''default'')) of
                       None \<Rightarrow> new_session (now_created example_env) | Some sd \<Rightarrow> sd) + 1 > 3"
    by code_simp
  have sid: "dict_get terrible_request (u ''session_id'') (u ''default'') = u ''s1''"
    by code_simp
  note th = escalation_short_circuit [where e = example_env and data = terrible_request
      and conversations = three_turns and resp = default_responses and U = example_unicode
      and classify = "match_intent example_unicode default_responses"
      and respond = "get_personalized_response example_unicode default_responses example_env"]
  from th [OF h1 h2] h1 h2 sid show ?thesis by simp
qed

text \<open>
  C9. On an escalation turn the session keeps its name, last intent, last order and
  creation time; the counter grows by one and the log grows by the entry of the user.
\<close>
theorem escalation_frame:
  assumes "analyze_sentiment e (dict_get data (u ''message'') []) = u ''negative''"
    and "message_count (case conversations (dict_get data (u ''session_id'') (u ''default'')) of
                          None \<Rightarrow> new_session (now_created e) | Some sd \<Rightarrow> sd) + 1 > 3"
  shows "\<exists>sd sd'. conversations (dict_get data (u ''session_id'') (u ''default'')) = Some sd
     \<and> fst (chat U resp e data conversations) (dict_get data (u ''session_id'') (u ''default'')) = Some sd'
     \<and> name sd' = name sd \<and> last_intent sd' = last_intent sd \<and> last_order sd' = last_order sd
     \<and> created_at sd' = created_at sd
     \<and> message_count sd' = message_count sd + 1
     \<and> messages sd' = messages sd @
          [\<lparr>role = u ''user'', message = dict_get data (u ''message'') [], timestamp = now_user e\<rparr>]"
proof (cases "conversations (dict_get data (u ''session_id'') (u ''default''))")
  case None
  with assms(2) show ?thesis by (simp add: new_session_def)
next
  case (Some sd)
  with assms show ?thesis
    by (simp add: chat_def chat_with_def Let_def)
qed

theorem escalation_frame_witness:
  "analyze_sentiment example_env (dict_get terrible_request (u ''message'') []) = u ''negative''
   \<and> message_count (case three_turns (dict_get terrible_request (u ''session_id'') (u ''default'')) of
                       None \<Rightarrow> new_session (now_created example_env) | Some sd \<Rightarrow> sd) + 1 > 3
   \<and> (\<exists>sd sd'. three_turns (u ''s1'') = Some sd
       \<and> fst (chat example_unicode default_responses example_env terrible_request three_turns) (u ''s1'') = Some sd'
       \<and> name sd' = name sd \<and> last_intent sd' = last_intent sd \<and> last_order sd' = last_order sd
       \<and> created_at sd' = created_at sd)"
proof -
  have h1: "analyze_sentiment example_env (dict_get terrible_request (u ''message'') []) = u ''negative''"
    by code_simp
  have h2: "message_count (case three_turns (dict_get terrible_request (u ''session_id'') (u ''default'')) of
                       None \<Rightarrow> new_session (now_created example_env) | Some sd \<Rightarrow> sd) + 1 > 3"
    by code_simp
  have sid: "dict_get terrible_request (u ''session_id'') (u ''default'') = u ''s1''"
    by code_simp
  note th = escalation_frame [where e = example_env and data = terrible_request
      and conversations = three_turns and resp = default_responses and U = example_unicode]
  from th [OF h1 h2] h1 h2 show ?thesis unfolding sid by blast
qed

text \<open>
  C6. The escalation message should be appended to the log of the session. After three
  turns and a fourth, escalating one, the log ends with the entry of the user, and the
  escalation text is in no entry.
\<close>
theorem escalation_reply_not_logged:
  "map_option (\<lambda>sd. (map role (messages sd), escalation_response \<in> set (map message (messages sd))))
     (fst (chat example_unicode default_responses example_env terrible_request three_turns) (u ''s1''))
   = Some ([(u ''user''), (u ''bot''), (u ''user''), (u ''bot''), (u ''user''), (u ''bot''), (u ''user'')], False)"
  by code_simp

subsection \<open>The fields of a result\<close>

text \<open>
  C8. Not every result has the six fields: the result of an escalating turn has neither
  \<open>intent\<close> nor \<open>name\<close>.
\<close>
theorem escalation_result_lacks_fields:
  "escalates example_env terrible_request three_turns
   \<and> (case snd (chat example_unicode default_responses example_env terrible_request three_turns) of
        Inl err \<Rightarrow> False
      | Inr r \<Rightarrow> \<not> has_field r (u ''intent'') \<and> \<not> has_field r (u ''name''))"
  by code_simp

text \<open>
  C8, as the code has it: every result has the fields \<open>response\<close>, \<open>sentiment\<close>,
  \<open>quick_replies\<close> and \<open>session_id\<close>, and the result of a turn that does not escalate
  has \<open>intent\<close> and \<open>name\<close> as well.
\<close>
theorem chat_result_fields:
  assumes "snd (chat U resp e data conversations) = Inr r"
  shows "has_field r (u ''response'') \<and> has_field r (u ''sentiment'') \<and> has_field r (u ''quick_replies'')
       \<and> has_field r (u ''session_id'')
       \<and> (\<not> escalates e data conversations \<longrightarrow> has_field r (u ''intent'') \<and> has_field r (u ''name''))"
  using assms
  by (auto simp add: chat_def chat_with_def Let_def has_field_def escalates_def
      split: if_splits prod.splits sum.splits)

theorem chat_result_fields_witness:
  "\<not> escalates example_env hello_request Map.empty
   \<and> (\<exists>r. snd (chat example_unicode default_responses example_env hello_request Map.empty) = Inr r
        \<and> has_field r (u ''response'') \<and> has_field r (u ''sentiment'') \<and> has_field r (u ''quick_replies'')
        \<and> has_field r (u ''session_id'') \<and> has_field r (u ''intent'') \<and> has_field r (u ''name''))"
proof -
  have h1: "\<not> escalates example_env hello_request Map.empty"
    by code_simp
  have "snd (chat example_unicode default_responses example_env hello_request Map.empty) \<noteq> Inl KeyError"
       "snd (chat example_unicode default_responses example_env hello_request Map.empty) \<noteq> Inl IndexError"
    by code_simp+
  then obtain r where r: "snd (chat example_unicode default_responses example_env hello_request Map.empty) = Inr r"
    by (cases "snd (chat example_unicode default_responses example_env hello_request Map.empty)")
       (auto intro: py_error.exhaust)
  from chat_result_fields [OF r] h1 r show ?thesis by blast
qed

subsection \<open>Clearing and reading a session\<close>

text \<open>
  C7. Clearing returns the same confirmation whether or not the session exists, removes
  the session, and changes nothing when the id is absent; the history of a cleared or
  unknown id is an empty log with empty metadata.
\<close>
theorem clear_and_history:
  "snd (clear_session sid conversations) = JObj [(u ''status'', JStr (u ''cleared''))]
   \<and> fst (clear_session sid conversations) sid = None
   \<and> (conversations sid = None \<longrightarrow> fst (clear_session sid conversations) = conversations)
   \<and> get_history sid (fst (clear_session sid conversations))
       = JObj [(u ''history'', JList []), (u ''session_data'', JObj [])]
   \<and> (conversations sid = None \<longrightarrow>
        get_history sid conversations = JObj [(u ''history'', JList []), (u ''session_data'', JObj [])])"
  by (auto simp add: clear_session_def get_history_def)

theorem clear_and_history_witness:
  "(Map.empty :: store) (u ''s1'') = None
   \<and> fst (clear_session (u ''s1'') Map.empty) = Map.empty
   \<and> get_history (u ''s1'') Map.empty = JObj [(u ''history'', JList []), (u ''session_data'', JObj [])]"
  using clear_and_history [of "(u ''s1'')" Map.empty] by simp

subsection \<open>The message counter\<close>

lemma respond_frame:
  assumes "get_personalized_response U resp e intent sd msg = (sd', r)"
  shows "message_count sd' = message_count sd \<and> messages sd' = messages sd"
  using assms by (auto simp add: get_personalized_response_def split: option.splits)

lemma chat_other_sessions:
  assumes "k \<noteq> dict_get data (u ''session_id'') (u ''default'')"
  shows "fst (chat U resp e data conversations) k = conversations k"
  using assms
  by (simp add: chat_def chat_with_def Let_def split: prod.splits sum.splits)

lemma chat_this_session:
  "\<exists>sd'. fst (chat U resp e data conversations) (dict_get data (u ''session_id'') (u ''default'')) = Some sd'
     \<and> message_count sd'
         = message_count (case conversations (dict_get data (u ''session_id'') (u ''default'')) of
                            None \<Rightarrow> new_session (now_created e) | Some sd \<Rightarrow> sd) + 1
     \<and> user_entries sd'
         = user_entries (case conversations (dict_get data (u ''session_id'') (u ''default'')) of
                           None \<Rightarrow> new_session (now_created e) | Some sd \<Rightarrow> sd) + 1"
  by (auto simp add: chat_def chat_with_def Let_def user_entries_def
      split: prod.splits sum.splits dest!: respond_frame)

lemma chat_keeps_counter:
  assumes "counter_matches_log conversations"
  shows "counter_matches_log (fst (chat U resp e data conversations))"
  unfolding counter_matches_log_def
proof (intro allI impI)
  fix k sd
  assume k: "fst (chat U resp e data conversations) k = Some sd"
  let ?sid = "dict_get data (u ''session_id'') (u ''default'')"
  let ?sd0 = "case conversations ?sid of None \<Rightarrow> new_session (now_created e) | Some sd \<Rightarrow> sd"
  show "message_count sd = int (user_entries sd)"
  proof (cases "k = ?sid")
    case False
    with k have "conversations k = Some sd"
      by (simp add: chat_other_sessions)
    with assms show ?thesis
      by (simp add: counter_matches_log_def)
  next
    case True
    have "message_count ?sd0 = int (user_entries ?sd0)"
      using assms
      by (cases "conversations ?sid")
         (simp_all add: counter_matches_log_def new_session_def user_entries_def)
    with chat_this_session [of U resp e data conversations] k True
    show ?thesis by auto
  qed
qed

lemma apply_op_keeps_counter:
  assumes "counter_matches_log conversations"
  shows "counter_matches_log (apply_op U resp conversations x)"
proof (cases x)
  case (Chat e data)
  with assms show ?thesis by (simp add: chat_keeps_counter)
next
  case (History sid)
  with assms show ?thesis by simp
next
  case (Clear sid)
  with assms show ?thesis by (simp add: clear_session_def counter_matches_log_def)
qed

lemma foldl_keeps_counter:
  assumes "counter_matches_log conversations"
  shows "counter_matches_log (foldl (apply_op U resp) conversations ops)"
  using assms by (induction ops arbitrary: conversations) (simp_all add: apply_op_keeps_counter)

text \<open>
  C5. After any sequence of chat turns (which create sessions, and escalate or not),
  history reads and clears, the message counter of every session in the store is the
  number of entries of the user in its log.
\<close>
theorem counter_equals_user_entries: "counter_matches_log (run U resp ops)"
  unfolding run_def by (rule foldl_keeps_counter) (simp add: counter_matches_log_def)

theorem counter_equals_user_entries_witness:
  "map_option message_count (run example_unicode default_responses mixed_ops (u ''s1'')) = Some 5
   \<and> map_option user_entries (run example_unicode default_responses mixed_ops (u ''s1'')) = Some 5"
proof -
  have c: "map_option message_count (run example_unicode default_responses mixed_ops (u ''s1'')) = Some 5"
    by code_simp
  from counter_equals_user_entries [of example_unicode default_responses mixed_ops] c
  show ?thesis by (auto simp add: counter_matches_log_def)
qed

subsection \<open>The first pattern that matches\<close>


lemma first_name_None:
  assumes "\<forall>r\<in>set rs. re_search U False r s = None"
  shows "first_name U rs s = None"
  using assms by (induction rs) simp_all

lemma first_match_first:
  assumes "\<exists>r\<in>set rs. re_search U True r s \<noteq> None"
  shows "\<exists>pre r post d. rs = pre @ r # post
           \<and> (\<forall>r'\<in>set pre. re_search U True r' s = None)
           \<and> re_search U True r s = Some d \<and> first_match U rs s = Some d"
  using assms
proof (induction rs)
  case Nil
  then show ?case by simp
next
  case (Cons a rs)
  show ?case
  proof (cases "re_search U True a s")
    case None
    with Cons.prems have "\<exists>r\<in>set rs. re_search U True r s \<noteq> None" by auto
    from Cons.IH [OF this] obtain pre r post d where
      "rs = pre @ r # post" "\<forall>r'\<in>set pre. re_search U True r' s = None"
      "re_search U True r s = Some d" "first_match U rs s = Some d"
      by blast
    with None have "a # rs = (a # pre) @ r # post
           \<and> (\<forall>r'\<in>set (a # pre). re_search U True r' s = None)
           \<and> re_search U True r s = Some d \<and> first_match U (a # rs) s = Some d"
      by simp
    then show ?thesis by blast
  next
    case (Some d)
    then have "a # rs = [] @ a # rs
           \<and> (\<forall>r'\<in>set []. re_search U True r' s = None)
           \<and> re_search U True a s = Some d \<and> first_match U (a # rs) s = Some d"
      by simp
    then show ?thesis by blast
  qed
qed

lemma first_match_digits:
  assumes "\<exists>r\<in>set (order_regexes U). re_search U True r s \<noteq> None"
  shows "\<exists>pre r post d. order_regexes U = pre @ r # post
           \<and> (\<forall>r'\<in>set pre. re_search U True r' s = None)
           \<and> re_search U True r s = Some d
           \<and> 5 \<le> length d \<and> (\<forall>c\<in>set d. is_digit U c)
           \<and> extract_order_number U s = Some d"
proof -
  from first_match_first [OF assms] obtain pre r post d where
    f: "order_regexes U = pre @ r # post" "\<forall>r'\<in>set pre. re_search U True r' s = None"
       "re_search U True r s = Some d" "first_match U (order_regexes U) s = Some d"
    by blast
  have "r \<in> set (pre @ r # post)" by simp
  then have "r \<in> set (order_regexes U)" by (simp only: f(1))
  from this f(3) have dg: "5 \<le> length d \<and> (\<forall>c\<in>set d. is_digit U c)"
    by (rule order_regexes_digits)
  from f(4) have "extract_order_number U s = Some d"
    by (simp add: extract_order_number_def)
  with f(1,2,3) dg show ?thesis by blast
qed

subsection \<open>The intents the classifier can return\<close>

lemma priority_scan_key:
  "priority_scan U resp words ps = Some intent \<Longrightarrow> intent \<in> fst ` set resp"
proof (induction ps)
  case Nil
  then show ?case by simp
next
  case (Cons p ps)
  then show ?case
    by (auto split: option.splits if_splits dest!: map_of_SomeD intro: rev_image_eqI)
qed

lemma other_scan_key: "other_scan U resp msg = Some intent \<Longrightarrow> intent \<in> fst ` set resp"
  by (induction U resp msg rule: other_scan.induct) (auto split: if_splits)

text \<open>
  C2. The classifier returns a named intent for every message, whatever the character
  tables: \<open>name_intro\<close>, \<open>order_tracking\<close>, \<open>greeting\<close>, \<open>default\<close> or a name of the
  catalog; with the built-in catalog these are five names, and the empty message is
  classified \<open>default\<close>.
\<close>
theorem match_intent_total:
  "match_intent U resp msg \<in> {u ''name_intro'', u ''order_tracking'', u ''greeting'', u ''default''}
                              \<union> fst ` set resp
   \<and> match_intent U default_responses msg
       \<in> {u ''name_intro'', u ''order_tracking'', u ''return'', u ''greeting'', u ''default''}
   \<and> match_intent U default_responses [] = u ''default''"
proof -
  have general: "match_intent U r msg \<in> {u ''name_intro'', u ''order_tracking'', u ''greeting'', u ''default''}
                            \<union> fst ` set r" for r
    by (auto simp add: match_intent_def Let_def split: option.splits
        dest: priority_scan_key other_scan_key)
  have keys: "fst ` set default_responses = {u ''greeting'', u ''return'', u ''default''}"
    by (auto simp add: default_responses_def)
  have empty: "match_intent U default_responses [] = u ''default''"
    by code_simp
  from general [of resp] general [of default_responses] keys empty show ?thesis
    by auto
qed

subsection \<open>Name introductions\<close>



text \<open>
  Names and order numbers beyond ASCII: \<open>0xC9\<close> and \<open>0xE9\<close> are the capital and the small
  e with acute accent, \<open>0x661\<close> to \<open>0x665\<close> the Arabic-Indic digits one to five.
\<close>
lemma extractors_beyond_ascii:
  "extract_name example_unicode (u ''my name is '' @ [0xC9] @ u ''ric'') = Some ([0xC9] @ u ''ric'')
   \<and> extract_name example_unicode (u ''my name is jos'' @ [0xE9]) = Some (u ''Jos'' @ [0xE9])
   \<and> extract_order_number example_unicode (u ''order #'' @ [0x661, 0x662, 0x663, 0x664, 0x665])
       = Some [0x661, 0x662, 0x663, 0x664, 0x665]
   \<and> match_intent example_unicode default_responses (u ''this is '' @ [0xE9] @ u ''lan order #12345'')
       = u ''name_intro''"
  by code_simp

subsection \<open>Order references\<close>

text \<open>
  C4. A text with an order reference is not always classified \<open>order_tracking\<close>: the
  name-introduction rule comes first, and in \<open>this is order #12345\<close> it matches.
\<close>
theorem order_reference_preempted:
  "(\<exists>r\<in>set (order_regexes example_unicode).
       re_search example_unicode True r (u ''this is order #12345'') \<noteq> None)
   \<and> extract_order_number example_unicode (u ''this is order #12345'') = Some (u ''12345'')
   \<and> match_intent example_unicode default_responses (u ''this is order #12345'') = u ''name_intro''
   \<and> match_intent example_unicode default_responses (u ''this is order #12345'') \<noteq> u ''order_tracking''"
proof -
  have "list_ex (\<lambda>r. re_search example_unicode True r (u ''this is order #12345'') \<noteq> None)
          (order_regexes example_unicode)"
    by code_simp
  then have "\<exists>r\<in>set (order_regexes example_unicode).
       re_search example_unicode True r (u ''this is order #12345'') \<noteq> None"
    by (simp add: list_ex_iff)
  moreover have "extract_order_number example_unicode (u ''this is order #12345'') = Some (u ''12345'')"
    by code_simp
  moreover have "match_intent example_unicode default_responses (u ''this is order #12345'') = u ''name_intro''"
    by code_simp
  ultimately show ?thesis by simp
qed

text \<open>
  The classifier reads the lower-cased text and the response generator the text as it
  is. The two differ in \<open>TRACK\<close>, the capital I with a dot above (\<open>0x130\<close>), \<open>NG 12345\<close>:
  under \<open>re.IGNORECASE\<close> that letter matches the \<open>i\<close> of the pattern, and its lower case
  is two characters.
\<close>
lemma order_reference_lowered:
  "extract_order_number example_unicode (u ''TRACK'' @ [0x130] @ u ''NG 12345'') = Some (u ''12345'')
   \<and> lower example_unicode (u ''TRACK'' @ [0x130] @ u ''NG 12345'') = u ''tracki'' @ [0x307] @ u ''ng 12345''
   \<and> extract_order_number example_unicode (u ''tracki'' @ [0x307] @ u ''ng 12345'') = None
   \<and> match_intent example_unicode default_responses (u ''TRACK'' @ [0x130] @ u ''NG 12345'') = u ''default''"
  by code_simp

text \<open>
  C4, as the code has it, with character tables that have the properties \<open>unicode_facts\<close>.
  When one of the four order patterns matches the lower-cased text and no
  name-introduction pattern matches it, the classifier returns \<open>order_tracking\<close>. When
  one of the four order patterns matches the text, the response generator, called with
  \<open>order_tracking\<close>, stores the digits captured by the first pattern that matches, five
  at least, as the last order of the session, and returns the status text with them.
\<close>
theorem order_tracking_stored:
  assumes "unicode_facts U"
  shows "((\<exists>r\<in>set (order_regexes U). re_search U True r (lower U msg) \<noteq> None)
          \<and> (\<forall>n\<in>set (name_regexes U). re_search U False n (lower U msg) = None)
          \<longrightarrow> match_intent U resp msg = u ''order_tracking'')
       \<and> ((\<exists>r\<in>set (order_regexes U). re_search U True r msg \<noteq> None)
          \<longrightarrow> (\<exists>pre r post d.
                 order_regexes U = pre @ r # post
               \<and> (\<forall>r'\<in>set pre. re_search U True r' msg = None)
               \<and> re_search U True r msg = Some d
               \<and> 5 \<le> length d \<and> (\<forall>c\<in>set d. is_digit U c)
               \<and> extract_order_number U msg = Some d
               \<and> get_personalized_response U resp e (u ''order_tracking'') sd msg
                   = (sd\<lparr>last_order := Some d\<rparr>,
                      Inr (u ''Let me check order #'' @ d @ u '' for you... ''
                           @ [0x1F4E6] @ u '' It'' @ [0x27]
                           @ u ''s currently being processed and will ship within 2 business days.''))))"
proof (intro conjI impI)
  assume h: "(\<exists>r\<in>set (order_regexes U). re_search U True r (lower U msg) \<noteq> None)
          \<and> (\<forall>n\<in>set (name_regexes U). re_search U False n (lower U msg) = None)"
  then have "extract_name U msg = None"
    by (simp add: extract_name_def first_name_None)
  moreover from h first_match_digits [of U "lower U msg"] obtain d where
    "extract_order_number U (lower U msg) = Some d" "5 \<le> length d"
    by blast
  moreover from this have "d \<noteq> []" by auto
  ultimately show "match_intent U resp msg = u ''order_tracking''"
    using match_intent_order [OF assms] by blast
next
  assume "\<exists>r\<in>set (order_regexes U). re_search U True r msg \<noteq> None"
  from first_match_digits [OF this] obtain pre r post d where
    f: "order_regexes U = pre @ r # post" "\<forall>r'\<in>set pre. re_search U True r' msg = None"
       "re_search U True r msg = Some d" "5 \<le> length d \<and> (\<forall>c\<in>set d. is_digit U c)"
       "extract_order_number U msg = Some d"
    by blast
  from f(4) have ne: "d \<noteq> []" by auto
  from f(5) ne have
    "get_personalized_response U resp e (u ''order_tracking'') sd msg
       = (sd\<lparr>last_order := Some d\<rparr>,
          Inr (u ''Let me check order #'' @ d @ u '' for you... ''
               @ [0x1F4E6] @ u '' It'' @ [0x27]
               @ u ''s currently being processed and will ship within 2 business days.''))"
    by (simp add: get_personalized_response_def order_status_def u_def)
  with f show "\<exists>pre r post d.
                 order_regexes U = pre @ r # post
               \<and> (\<forall>r'\<in>set pre. re_search U True r' msg = None)
               \<and> re_search U True r msg = Some d
               \<and> 5 \<le> length d \<and> (\<forall>c\<in>set d. is_digit U c)
               \<and> extract_order_number U msg = Some d
               \<and> get_personalized_response U resp e (u ''order_tracking'') sd msg
                   = (sd\<lparr>last_order := Some d\<rparr>,
                      Inr (u ''Let me check order #'' @ d @ u '' for you... ''
                           @ [0x1F4E6] @ u '' It'' @ [0x27]
                           @ u ''s currently being processed and will ship within 2 business days.''))"
    by blast
qed

theorem order_tracking_stored_witness:
  "(\<exists>r\<in>set (order_regexes example_unicode).
       re_search example_unicode True r (lower example_unicode (u ''Track ORDER #123456'')) \<noteq> None)
   \<and> (\<exists>r\<in>set (order_regexes example_unicode).
         re_search example_unicode True r (u ''Track ORDER #123456'') \<noteq> None)
   \<and> extract_name example_unicode (u ''Track ORDER #123456'') = None
   \<and> match_intent example_unicode default_responses (u ''Track ORDER #123456'') = u ''order_tracking''
   \<and> last_order (fst (get_personalized_response example_unicode default_responses example_env
                        (u ''order_tracking'') (new_session (u ''2024-01-01T10:00:00''))
                        (u ''Track ORDER #123456'')))
       = Some (u ''123456'')"
proof -
  have "list_ex (\<lambda>r. re_search example_unicode True r (lower example_unicode (u ''Track ORDER #123456'')) \<noteq> None)
          (order_regexes example_unicode)"
    by code_simp
  then have hl: "\<exists>r\<in>set (order_regexes example_unicode).
       re_search example_unicode True r (lower example_unicode (u ''Track ORDER #123456'')) \<noteq> None"
    by (simp add: list_ex_iff)
  have "list_ex (\<lambda>r. re_search example_unicode True r (u ''Track ORDER #123456'') \<noteq> None)
          (order_regexes example_unicode)"
    by code_simp
  then have h: "\<exists>r\<in>set (order_regexes example_unicode).
       re_search example_unicode True r (u ''Track ORDER #123456'') \<noteq> None"
    by (simp add: list_ex_iff)
  have "list_all (\<lambda>n. re_search example_unicode False n (lower example_unicode (u ''Track ORDER #123456'')) = None)
          (name_regexes example_unicode)"
    by code_simp
  then have n: "\<forall>n\<in>set (name_regexes example_unicode).
       re_search example_unicode False n (lower example_unicode (u ''Track ORDER #123456'')) = None"
    by (simp add: list_all_iff)
  have en: "extract_name example_unicode (u ''Track ORDER #123456'') = None"
    by code_simp
  have d: "extract_order_number example_unicode (u ''Track ORDER #123456'') = Some (u ''123456'')"
    by code_simp
  note th = order_tracking_stored [where msg = "u ''Track ORDER #123456''"
      and resp = default_responses and U = example_unicode and e = example_env
      and sd = "new_session (u ''2024-01-01T10:00:00'')"]
  from th [OF example_unicode_facts] hl n h d en show ?thesis by auto
qed

subsection \<open>The response generator\<close>

lemma pool_loader_contract:
  assumes "loader_contract resp" and "k \<in> fst ` set resp"
  shows "\<exists>rs. pool resp k = Inr rs \<and> rs \<noteq> [] \<and> (no_empty_response resp \<longrightarrow> [] \<notin> set rs)"
proof -
  from assms(2) obtain data where "map_of resp k = Some data"
    by (cases "map_of resp k") (auto simp add: map_of_eq_None_iff)
  moreover from this have "(k, data) \<in> set resp"
    by (rule map_of_SomeD)
  ultimately show ?thesis
    using assms(1)
    by (auto simp add: loader_contract_def no_empty_response_def pool_def list_all_iff
        split: option.splits)
qed

lemma choice_member: "rs \<noteq> [] \<Longrightarrow> \<exists>t. choice e rs = Inr t \<and> t \<in> set rs"
  by (simp add: choice_def)

lemma personalize_nonempty: "t \<noteq> [] \<Longrightarrow> \<exists>r. personalize U e sd t = Inr r"
  by (cases t) (auto simp add: personalize_def split: option.splits)

lemma catalog_response_total:
  assumes "loader_contract resp" and "no_empty_response resp"
  shows "\<exists>rs t r. pool resp (if intent \<noteq> u ''default'' \<and> intent \<in> fst ` set resp
                               then intent else u ''default'') = Inr rs
           \<and> t \<in> set rs \<and> personalize U e sd t = Inr r
           \<and> catalog_response U resp e intent sd = Inr r"
proof -
  let ?k = "if intent \<noteq> u ''default'' \<and> intent \<in> fst ` set resp then intent else u ''default''"
  from assms(1) have "?k \<in> fst ` set resp"
    by (simp add: loader_contract_def)
  from pool_loader_contract [OF assms(1) this] assms(2) obtain rs where
    rs: "pool resp ?k = Inr rs" "rs \<noteq> []" "[] \<notin> set rs" by blast
  from choice_member [OF rs(2)] obtain t where t: "choice e rs = Inr t" "t \<in> set rs"
    by blast
  with rs(3) have "t \<noteq> []" by auto
  from personalize_nonempty [OF this] obtain r where r: "personalize U e sd t = Inr r"
    by blast
  from rs(1) t(1) r have "catalog_response U resp e intent sd = Inr r"
    by (simp add: catalog_response_def)
  with rs(1) t(2) r show ?thesis by blast
qed

text \<open>
  C10. The response generator does not return a response on every catalog that the loader
  may supply: when the response drawn is the empty text, the session has a name and the
  draw exceeds 0.5, \<open>response[0]\<close> raises IndexError.
\<close>
theorem response_generator_fails_on_empty_text:
  "loader_contract empty_text_catalog
   \<and> name sam_session = Some (u ''Sam'')
   \<and> draw example_env > 0.5
   \<and> snd (get_personalized_response example_unicode empty_text_catalog example_env
            (u ''greeting'') sam_session (u ''hello'')) = Inl IndexError"
  by code_simp

text \<open>
  C10, as the code has it. On a catalog that has a \<open>default\<close> entry and whose entries
  each have a non-empty list of responses, none of them the empty text, the response
  generator returns a response for every intent name, session and message. When the
  intent is \<open>name_intro\<close> and no name can be extracted, or \<open>order_tracking\<close> and no order
  number can be extracted, the session is left as it was and the response is drawn from
  the pool of the intent, or from the \<open>default\<close> pool when the catalog has no such
  intent.
\<close>
theorem response_generator_total:
  assumes "loader_contract resp" and "no_empty_response resp"
  shows "(\<exists>r. snd (get_personalized_response U resp e intent sd msg) = Inr r)
       \<and> ((intent = u ''name_intro'' \<and> extract_name U msg = None
            \<or> intent = u ''order_tracking'' \<and> extract_order_number U msg = None)
           \<longrightarrow> fst (get_personalized_response U resp e intent sd msg) = sd
             \<and> (\<exists>rs t. pool resp (if intent \<in> fst ` set resp then intent else u ''default'') = Inr rs
                   \<and> t \<in> set rs
                   \<and> snd (get_personalized_response U resp e intent sd msg) = personalize U e sd t))"
proof -
  from catalog_response_total [OF assms, of intent U e sd] obtain rs t r where
    c: "pool resp (if intent \<noteq> u ''default'' \<and> intent \<in> fst ` set resp
                   then intent else u ''default'') = Inr rs"
       "t \<in> set rs" "personalize U e sd t = Inr r" "catalog_response U resp e intent sd = Inr r"
    by blast
  have total: "\<exists>r. snd (get_personalized_response U resp e intent sd msg) = Inr r"
    using c(4) by (auto simp add: get_personalized_response_def split: option.splits)
  have fall: "fst (get_personalized_response U resp e intent sd msg) = sd
             \<and> (\<exists>rs t. pool resp (if intent \<in> fst ` set resp then intent else u ''default'') = Inr rs
                   \<and> t \<in> set rs
                   \<and> snd (get_personalized_response U resp e intent sd msg) = personalize U e sd t)"
    if "intent = u ''name_intro'' \<and> extract_name U msg = None
        \<or> intent = u ''order_tracking'' \<and> extract_order_number U msg = None"
  proof -
    from that have g: "get_personalized_response U resp e intent sd msg
                       = (sd, catalog_response U resp e intent sd)"
      by (auto simp add: get_personalized_response_def)
    from that have "intent \<noteq> u ''default''" by auto
    with c(1) have "pool resp (if intent \<in> fst ` set resp then intent else u ''default'') = Inr rs"
      by simp
    with g c(2,3,4) show ?thesis by auto
  qed
  from total fall show ?thesis by blast
qed

theorem response_generator_total_witness:
  "extract_name example_unicode (u ''hello there'') = None
   \<and> get_personalized_response example_unicode default_responses example_env (u ''name_intro'')
       sam_session (u ''hello there'')
       = (sam_session, Inr (u ''Sam, i'' @ [0x27] @ u ''m not sure about that. Can you rephrase?''))"
proof -
  have lc: "loader_contract default_responses"
    by code_simp
  have ne: "no_empty_response default_responses"
    by code_simp
  have n: "extract_name example_unicode (u ''hello there'') = None"
    by code_simp
  have v: "snd (get_personalized_response example_unicode default_responses example_env
                  (u ''name_intro'') sam_session (u ''hello there''))
           = Inr (u ''Sam, i'' @ [0x27] @ u ''m not sure about that. Can you rephrase?'')"
    by code_simp
  note th = response_generator_total [where resp = default_responses and e = example_env
      and U = example_unicode
      and intent = "u ''name_intro''" and sd = sam_session and msg = "u ''hello there''"]
  from th [OF lc ne] n have "fst (get_personalized_response example_unicode default_responses example_env
      (u ''name_intro'') sam_session (u ''hello there'')) = sam_session"
    by simp
  with v n show ?thesis by (simp add: prod_eq_iff)
qed

end
